theory Spec2Isabelle
  imports Complex_Main "HOL-Library.Multiset"
begin

section \<open>The SIS simulator of netrd (netrd/dynamics/SIS.py)\<close>

text \<open>
  A shallow embedding of \<^verbatim>\<open>SISModel.simulate\<close>. Python exceptions are values of
  \<open>error\<close>; the graph objects live in a store, so that the copy made by
  \<^verbatim>\<open>G.copy()\<close> and the caller's graph are different objects; the global random
  source of numpy is a stream that every draw consumes. Python floats are modelled by
  the reals together with the two infinities and NaN: the rates are only ever compared
  with a draw, and no statement below depends on rounding.
\<close>

subsection \<open>Errors and floats\<close>

datatype error = ValueError | IndexError | KeyError | ZeroDivisionError | AttributeError

datatype pyfloat = Fin real | PInf | NInf | NaN

text \<open>Truthiness of an optional rate, as \<^verbatim>\<open>not beta\<close> tests it: \<^verbatim>\<open>None\<close> and zero are false.\<close>

fun truthy :: "pyfloat option \<Rightarrow> bool" where
  "truthy None = False"
| "truthy (Some (Fin x)) = (x \<noteq> 0)"
| "truthy (Some _) = True"

text \<open>\<^verbatim>\<open>u < b\<close> for a finite draw \<open>u\<close>: every comparison with NaN is false.\<close>

fun lt :: "real \<Rightarrow> pyfloat \<Rightarrow> bool" where
  "lt u (Fin b) = (u < b)"
| "lt u PInf = True"
| "lt u NInf = False"
| "lt u NaN = False"

text \<open>\<^verbatim>\<open>np.mean\<close> of a list of integers: NaN (with a warning) on the empty list.\<close>

definition np_mean :: "nat list \<Rightarrow> pyfloat" where
  "np_mean ds = (if ds = [] then NaN else Fin (real (sum_list ds) / real (length ds)))"

text \<open>\<^verbatim>\<open>1 / x\<close> for a numpy float \<open>x\<close>: division by zero gives infinity (with a warning).\<close>

fun np_recip :: "pyfloat \<Rightarrow> pyfloat" where
  "np_recip (Fin x) = (if x = 0 then PInf else Fin (1 / x))"
| "np_recip PInf = Fin 0"
| "np_recip NInf = Fin 0"
| "np_recip NaN = NaN"

subsection \<open>The random source\<close>

text \<open>
  The state of \<^verbatim>\<open>np.random\<close> is the stream of raw words it will produce, the
  next one at position 0. \<^verbatim>\<open>random()\<close> turns 53 bits
  into a float in \<open>[0, 1)\<close>; \<^verbatim>\<open>permutation\<close> copies its argument and shuffles the copy
  from the last position down, swapping position \<open>i\<close> with a position drawn from
  \<open>0..i\<close>.
\<close>

type_synonym rng = "nat \<Rightarrow> nat"

definition next_word :: "rng \<Rightarrow> nat \<times> rng" where
  "next_word g = (g 0, \<lambda>n. g (Suc n))"

definition random_sample :: "rng \<Rightarrow> real \<times> rng" where
  "random_sample g = (case next_word g of (w, g') \<Rightarrow> (real (w mod 2 ^ 53) / 2 ^ 53, g'))"

definition random_interval :: "nat \<Rightarrow> rng \<Rightarrow> nat \<times> rng" where
  "random_interval m g = (case next_word g of (w, g') \<Rightarrow> (w mod (m + 1), g'))"

fun shuffle :: "nat \<Rightarrow> 'a list \<Rightarrow> rng \<Rightarrow> 'a list \<times> rng" where
  "shuffle 0 xs g = (xs, g)"
| "shuffle (Suc i) xs g =
     (case random_interval (Suc i) g of
        (j, g') \<Rightarrow> shuffle i (xs[Suc i := xs ! j, j := xs ! Suc i]) g')"

definition permutation :: "'a list \<Rightarrow> rng \<Rightarrow> 'a list \<times> rng" where
  "permutation xs g = shuffle (length xs - 1) xs g"

subsection \<open>Arrays\<close>

text \<open>
  A two-dimensional array with its shape, stored by columns: the simulator only ever
  reads and writes whole columns. The entries of the time series are the floats 0.0
  and 1.0, written here as integers.
\<close>

record ndarray =
  nrows :: nat
  ncols :: nat
  cols :: "int list list"

definition np_zeros :: "nat \<Rightarrow> int \<Rightarrow> error + ndarray" where
  "np_zeros n l =
     (if l < 0 then Inl ValueError
      else Inr \<lparr>nrows = n, ncols = nat l, cols = replicate (nat l) (replicate n 0)\<rparr>)"

definition np_repeat :: "int \<Rightarrow> int \<Rightarrow> error + int list" where
  "np_repeat v n = (if n < 0 then Inl ValueError else Inr (replicate (nat n) v))"

text \<open>
  \<^verbatim>\<open>TS[:, t] = v\<close>: the index is checked first, then \<open>v\<close> must have one entry per
  row, or a single entry, which is broadcast.
\<close>

definition set_col :: "ndarray \<Rightarrow> nat \<Rightarrow> int list \<Rightarrow> error + ndarray" where
  "set_col a t v =
     (if ncols a \<le> t then Inl IndexError
      else if length v = nrows a then Inr (a\<lparr>cols := (cols a)[t := v]\<rparr>)
      else (case v of
              [x] \<Rightarrow> Inr (a\<lparr>cols := (cols a)[t := replicate (nrows a) x]\<rparr>)
            | _ \<Rightarrow> Inl ValueError))"

text \<open>\<^verbatim>\<open>TS[:, t].sum()\<close>\<close>

definition col_sum :: "ndarray \<Rightarrow> nat \<Rightarrow> error + int" where
  "col_sum a t = (if ncols a \<le> t then Inl IndexError else Inr (sum_list (cols a ! t)))"

text \<open>\<^verbatim>\<open>np.hstack([TS, np.zeros((N, k))])\<close>\<close>

definition hstack_zeros :: "ndarray \<Rightarrow> nat \<Rightarrow> ndarray" where
  "hstack_zeros a k =
     a\<lparr>ncols := ncols a + k, cols := cols a @ replicate k (replicate (nrows a) 0)\<rparr>"

subsection \<open>Graphs\<close>

text \<open>
  A networkx graph: the nodes in insertion order, the neighbours of each node, and one
  attribute dictionary per node. Node labels are integers, attribute values too.
\<close>

type_synonym node = int

record graph =
  nodes :: "node list"
  adj :: "node \<Rightarrow> node list"
  attrs :: "node \<Rightarrow> string \<rightharpoonup> int"

definition wf_graph :: "graph \<Rightarrow> bool" where
  "wf_graph G \<longleftrightarrow> distinct (nodes G) \<and> (\<forall>n \<in> set (nodes G). set (adj G n) \<subseteq> set (nodes G))"

definition number_of_nodes :: "graph \<Rightarrow> nat" where
  "number_of_nodes G = length (nodes G)"

text \<open>The degree counts a self-loop twice.\<close>

definition degree :: "graph \<Rightarrow> node \<Rightarrow> nat" where
  "degree G n = length (adj G n) + (if n \<in> set (adj G n) then 1 else 0)"

text \<open>\<^verbatim>\<open>H.nodes[n][name]\<close>\<close>

definition get_node_attr :: "graph \<Rightarrow> node \<Rightarrow> string \<Rightarrow> error + int" where
  "get_node_attr H n name =
     (if n \<in> set (nodes H)
      then (case attrs H n name of None \<Rightarrow> Inl KeyError | Some v \<Rightarrow> Inr v)
      else Inl KeyError)"

text \<open>\<^verbatim>\<open>H.nodes[n][name] = v\<close>\<close>

definition set_node_attr :: "graph \<Rightarrow> node \<Rightarrow> string \<Rightarrow> int \<Rightarrow> error + graph" where
  "set_node_attr H n name v =
     (if n \<in> set (nodes H)
      then Inr (H\<lparr>attrs := (attrs H)(n := (attrs H n)(name \<mapsto> v))\<rparr>)
      else Inl KeyError)"

text \<open>
  \<^verbatim>\<open>nx.set_node_attributes(H, values, name)\<close> with a dictionary: the items are written
  in order, and a key that is not a node is skipped.
\<close>

definition dict_step :: "string \<Rightarrow> node \<times> int \<Rightarrow> graph \<Rightarrow> graph" where
  "dict_step name = (\<lambda>(n, v) H'. if n \<in> set (nodes H')
                        then H'\<lparr>attrs := (attrs H')(n := (attrs H' n)(name \<mapsto> v))\<rparr>
                        else H')"

definition set_node_attributes_dict :: "graph \<Rightarrow> (node \<times> int) list \<Rightarrow> string \<Rightarrow> graph" where
  "set_node_attributes_dict H values name = fold (dict_step name) values H"

text \<open>\<^verbatim>\<open>nx.set_node_attributes(H, v, name)\<close> with a constant: every node gets it.\<close>

definition set_node_attributes_const :: "graph \<Rightarrow> int \<Rightarrow> string \<Rightarrow> graph" where
  "set_node_attributes_const H v name =
     fold (\<lambda>n H'. H'\<lparr>attrs := (attrs H')(n := (attrs H' n)(name \<mapsto> v))\<rparr>) (nodes H) H"

text \<open>\<^verbatim>\<open>nx.get_node_attributes(H, name)\<close>: the nodes that have the attribute, in node order.\<close>

definition get_node_attributes :: "graph \<Rightarrow> string \<Rightarrow> (node \<times> int) list" where
  "get_node_attributes H name =
     List.map_filter (\<lambda>n. map_option (Pair n) (attrs H n name)) (nodes H)"

subsection \<open>Defaults and seeds (lines 51 to 69)\<close>

definition default_beta :: "graph \<Rightarrow> pyfloat option \<Rightarrow> pyfloat" where
  "default_beta H beta =
     (let avg_k = np_mean (map (degree H) (nodes H))
      in case beta of
           None \<Rightarrow> np_recip avg_k
         | Some b \<Rightarrow> if \<not> truthy beta then np_recip avg_k else b)"

definition default_mu :: "graph \<Rightarrow> pyfloat option \<Rightarrow> error + pyfloat" where
  "default_mu H mu =
     (let d = (if number_of_nodes H = 0 then Inl ZeroDivisionError
               else Inr (Fin (1 / real (number_of_nodes H))))
      in case mu of
           None \<Rightarrow> d
         | Some m \<Rightarrow> if \<not> truthy mu then d else Inr m)"

text \<open>
  \<^verbatim>\<open>{index_to_node[i]: s for i, s in enumerate(seeds)}\<close>, where \<open>index_to_node\<close> is
  the dictionary \<^verbatim>\<open>dict(zip(range(N), nodes))\<close>.
\<close>

fun infected_attr :: "(nat \<times> node) list \<Rightarrow> (nat \<times> int) list \<Rightarrow> error + (node \<times> int) list" where
  "infected_attr itn [] = Inr []"
| "infected_attr itn ((i, s) # rest) =
     (case map_of itn i of
        None \<Rightarrow> Inl KeyError
      | Some n \<Rightarrow> (case infected_attr itn rest of
                     Inl e \<Rightarrow> Inl e
                   | Inr d \<Rightarrow> Inr ((n, s) # d)))"

record init_state =
  graph_of :: graph
  ts_of :: ndarray
  index_to_node_of :: "(nat \<times> node) list"
  beta_of :: pyfloat
  mu_of :: pyfloat
  rng_of :: rng

definition sis_init ::
  "rng \<Rightarrow> graph \<Rightarrow> int \<Rightarrow> int \<Rightarrow> pyfloat option \<Rightarrow> pyfloat option \<Rightarrow> error + init_state" where
  "sis_init g H L num_seeds beta mu =
     (let N = number_of_nodes H in
      case np_zeros N L of Inl e \<Rightarrow> Inl e | Inr TS \<Rightarrow>
      let index_to_node = zip [0..<length (nodes H)] (nodes H);
          beta' = default_beta H beta in
      case default_mu H mu of Inl e \<Rightarrow> Inl e | Inr mu' \<Rightarrow>
      case np_repeat 1 num_seeds of Inl e \<Rightarrow> Inl e | Inr ones \<Rightarrow>
      case np_repeat 0 (int N - num_seeds) of Inl e \<Rightarrow> Inl e | Inr zeros \<Rightarrow>
      case permutation (ones @ zeros) g of (seeds, g') \<Rightarrow>
      case set_col TS 0 seeds of Inl e \<Rightarrow> Inl e | Inr TS' \<Rightarrow>
      case infected_attr index_to_node (enumerate 0 seeds) of Inl e \<Rightarrow> Inl e | Inr ia \<Rightarrow>
      let H1 = set_node_attributes_dict H ia ''infected'';
          H2 = set_node_attributes_const H1 0 ''next_infected''
      in Inr \<lparr>graph_of = H2, ts_of = TS', index_to_node_of = index_to_node,
              beta_of = beta', mu_of = mu', rng_of = g'\<rparr>)"

subsection \<open>One timestep (lines 78 to 103)\<close>

text \<open>The loop over the neighbours of an infected node (lines 84 to 86).\<close>

fun infect_neighbors :: "pyfloat \<Rightarrow> node list \<Rightarrow> graph \<times> rng \<Rightarrow> error + graph \<times> rng" where
  "infect_neighbors beta [] (H, g) = Inr (H, g)"
| "infect_neighbors beta (j # js) (H, g) =
     (case random_sample g of
        (u, g') \<Rightarrow>
          if lt u beta
          then (case set_node_attr H j ''next_infected'' 1 of
                  Inl e \<Rightarrow> Inl e
                | Inr H' \<Rightarrow> infect_neighbors beta js (H', g'))
          else infect_neighbors beta js (H, g'))"

text \<open>The loop over the nodes in their random order (lines 79 to 94).\<close>

fun visit_nodes :: "pyfloat \<Rightarrow> pyfloat \<Rightarrow> node list \<Rightarrow> graph \<times> rng \<Rightarrow> error + graph \<times> rng" where
  "visit_nodes beta mu [] (H, g) = Inr (H, g)"
| "visit_nodes beta mu (i # rest) (H, g) =
     (case get_node_attr H i ''infected'' of
        Inl e \<Rightarrow> Inl e
      | Inr infected \<Rightarrow>
          if infected \<noteq> 0
          then (case infect_neighbors beta (adj H i) (H, g) of
                  Inl e \<Rightarrow> Inl e
                | Inr (H1, g1) \<Rightarrow>
                    (case random_sample g1 of
                       (u, g2) \<Rightarrow>
                         (case (if lt u mu then set_node_attr H1 i ''infected'' 0
                                else set_node_attr H1 i ''next_infected'' 1) of
                            Inl e \<Rightarrow> Inl e
                          | Inr H2 \<Rightarrow> visit_nodes beta mu rest (H2, g2))))
          else visit_nodes beta mu rest (H, g))"

text \<open>The pass over the graph and the commit of the staged flags (lines 78 to 99).\<close>

definition sis_pass :: "pyfloat \<Rightarrow> pyfloat \<Rightarrow> graph \<times> rng \<Rightarrow> error + graph \<times> rng" where
  "sis_pass beta mu s =
     (case s of (H, g) \<Rightarrow>
      case permutation (nodes H) g of (order, g1) \<Rightarrow>
      case visit_nodes beta mu order (H, g1) of
        Inl e \<Rightarrow> Inl e
      | Inr (H1, g2) \<Rightarrow>
          let next_infections = get_node_attributes H1 ''next_infected'';
              H2 = set_node_attributes_dict H1 next_infections ''infected'';
              H3 = set_node_attributes_const H2 0 ''next_infected''
          in Inr (H3, g2))"

text \<open>The body of the main loop after the extinction test (lines 78 to 103).\<close>

definition sis_step ::
  "pyfloat \<Rightarrow> pyfloat \<Rightarrow> nat \<Rightarrow> graph \<times> ndarray \<times> rng \<Rightarrow> error + graph \<times> ndarray \<times> rng" where
  "sis_step beta mu t s =
     (case s of (H, TS, g) \<Rightarrow>
      case sis_pass beta mu (H, g) of
        Inl e \<Rightarrow> Inl e
      | Inr (H', g') \<Rightarrow>
          let infections = get_node_attributes H' ''infected''
          in case set_col TS t (map snd infections) of
               Inl e \<Rightarrow> Inl e
             | Inr TS' \<Rightarrow> Inr (H', TS', g'))"

subsection \<open>The timestep as the specification words it\<close>

text \<open>
  The specification describes the pass over two boolean flags per node, \<open>infected\<close>
  and \<open>nextInfected\<close>: every neighbour of a visited infected node is marked with
  probability \<open>beta\<close>, then the node is cured with probability \<open>mu\<close> or else marked
  itself; after the pass \<open>infected\<close> is overwritten by \<open>nextInfected\<close>, which is reset.
  A Bernoulli trial with probability \<open>p\<close> is a draw from \<open>[0, 1)\<close> compared with \<open>p\<close>.
\<close>

type_synonym flags = "node \<Rightarrow> bool"

fun spec_spread :: "pyfloat \<Rightarrow> node list \<Rightarrow> flags \<times> rng \<Rightarrow> flags \<times> rng" where
  "spec_spread beta [] (nxt, g) = (nxt, g)"
| "spec_spread beta (j # js) (nxt, g) =
     (case random_sample g of
        (u, g') \<Rightarrow> spec_spread beta js (if lt u beta then nxt(j := True) else nxt, g'))"

fun spec_visit ::
  "pyfloat \<Rightarrow> pyfloat \<Rightarrow> (node \<Rightarrow> node list) \<Rightarrow> node list
     \<Rightarrow> flags \<times> flags \<times> rng \<Rightarrow> flags \<times> flags \<times> rng" where
  "spec_visit beta mu nb [] (cur, nxt, g) = (cur, nxt, g)"
| "spec_visit beta mu nb (i # rest) (cur, nxt, g) =
     (if cur i
      then (case spec_spread beta (nb i) (nxt, g) of
              (nxt1, g1) \<Rightarrow>
                (case random_sample g1 of
                   (u, g2) \<Rightarrow>
                     if lt u mu then spec_visit beta mu nb rest (cur(i := False), nxt1, g2)
                     else spec_visit beta mu nb rest (cur, nxt1(i := True), g2)))
      else spec_visit beta mu nb rest (cur, nxt, g))"

definition spec_pass ::
  "pyfloat \<Rightarrow> pyfloat \<Rightarrow> node list \<Rightarrow> (node \<Rightarrow> node list)
     \<Rightarrow> flags \<times> flags \<times> rng \<Rightarrow> flags \<times> flags \<times> rng" where
  "spec_pass beta mu ns nb s =
     (case s of (cur, nxt, g) \<Rightarrow>
      case permutation ns g of (order, g1) \<Rightarrow>
      case spec_visit beta mu nb order (cur, nxt, g1) of
        (cur', nxt', g2) \<Rightarrow> (nxt', (\<lambda>_. False), g2))"

text \<open>The flag that an attribute of the working graph stands for: a node's attribute, read as a truth value.\<close>

definition flag :: "graph \<Rightarrow> string \<Rightarrow> flags" where
  "flag H name n \<longleftrightarrow>
     n \<in> set (nodes H) \<and> (case attrs H n name of None \<Rightarrow> False | Some v \<Rightarrow> v \<noteq> 0)"

text \<open>Every node carries both attributes, as it does from line 69 on.\<close>

definition ready :: "graph \<Rightarrow> bool" where
  "ready H \<longleftrightarrow>
     (\<forall>n \<in> set (nodes H). attrs H n ''infected'' \<noteq> None \<and> attrs H n ''next_infected'' \<noteq> None)"

text \<open>
  The working graph between two timesteps: every node's \<open>infected\<close> is 0 or 1 and
  nothing is staged.
\<close>

definition clean :: "graph \<Rightarrow> bool" where
  "clean H \<longleftrightarrow>
     (\<forall>n \<in> set (nodes H).
        (attrs H n ''infected'' = Some 0 \<or> attrs H n ''infected'' = Some 1)
        \<and> attrs H n ''next_infected'' = Some 0)"

subsection \<open>The main loop (lines 72 to 103)\<close>

function sis_loop ::
  "pyfloat \<Rightarrow> pyfloat \<Rightarrow> nat \<Rightarrow> nat \<Rightarrow> graph \<times> ndarray \<times> rng \<Rightarrow> error + graph \<times> ndarray \<times> rng" where
  "sis_loop beta mu L t (H, TS, g) =
     (if t < L
      then (case col_sum TS (t - 1) of
              Inl e \<Rightarrow> Inl e
            | Inr s \<Rightarrow>
                if s < 1 then Inr (H, TS, g)
                else (case sis_step beta mu t (H, TS, g) of
                        Inl e \<Rightarrow> Inl e
                      | Inr st \<Rightarrow> sis_loop beta mu L (Suc t) st))
      else Inr (H, TS, g))"
  by pat_completeness auto
termination
  by (relation "measure (\<lambda>(beta, mu, L, t, st). L - t)") auto

declare sis_loop.simps [simp del]

text \<open>
  The time series when the loop is about to run iteration \<open>t\<close>: it has its shape, its
  entries are 0 or 1, the columns from \<open>t\<close> on are still the zeros of the allocation, and
  every column before \<open>t - 1\<close> passed the extinction test.
\<close>

definition ts_inv :: "nat \<Rightarrow> nat \<Rightarrow> nat \<Rightarrow> ndarray \<Rightarrow> bool" where
  "ts_inv N L t TS \<longleftrightarrow>
     nrows TS = N \<and> ncols TS = L \<and> length (cols TS) = L
     \<and> (\<forall>c \<in> set (cols TS). length c = N \<and> set c \<subseteq> {0, 1})
     \<and> (\<forall>s. t \<le> s \<and> s < L \<longrightarrow> cols TS ! s = replicate N 0)
     \<and> (\<forall>s. Suc s < t \<longrightarrow> 1 \<le> sum_list (cols TS ! s))"

subsection \<open>Padding and the whole call (lines 51 to 113)\<close>

text \<open>Lines 106 and 107.\<close>

definition pad :: "ndarray \<Rightarrow> int \<Rightarrow> ndarray" where
  "pad TS L = (if int (ncols TS) < L then hstack_zeros TS (nat (L - int (ncols TS))) else TS)"

text \<open>
  The objects a call can reach: the graphs, addressed by their position in the store,
  and the \<^verbatim>\<open>results\<close> dictionary of the model object.
\<close>

datatype pyval = GraphRef nat | Array ndarray | Dict "(nat \<times> node) list"

record world =
  heap :: "graph list"
  results :: "string \<rightharpoonup> pyval"

text \<open>
  \<^verbatim>\<open>simulate(self, G, L, num_seeds, beta, mu)\<close>. \<open>G\<close> is a reference into the store;
  \<^verbatim>\<open>G.copy()\<close> allocates a new graph with the same nodes and edges and copies of the
  attribute dictionaries. The result is the value returned or the exception raised,
  and the store and \<^verbatim>\<open>self.results\<close> as the call leaves them.
\<close>

definition simulate ::
  "rng \<Rightarrow> world \<Rightarrow> nat \<Rightarrow> int \<Rightarrow> int \<Rightarrow> pyfloat option \<Rightarrow> pyfloat option
     \<Rightarrow> (error + ndarray) \<times> world" where
  "simulate g w G L num_seeds beta mu =
     (if length (heap w) \<le> G then (Inl AttributeError, w)
      else
        let h = length (heap w);
            w1 = w\<lparr>heap := heap w @ [heap w ! G]\<rparr>
        in case sis_init g (heap w1 ! h) L num_seeds beta mu of
             Inl e \<Rightarrow> (Inl e, w1)
           | Inr s \<Rightarrow>
               (case sis_loop (beta_of s) (mu_of s) (nat L) 1 (graph_of s, ts_of s, rng_of s) of
                  Inl e \<Rightarrow> (Inl e, w1)
                | Inr (H, TS, g') \<Rightarrow>
                    let TS' = pad TS L;
                        w2 = w1\<lparr>heap := (heap w1)[h := H],
                                results := (results w1)(''ground_truth'' \<mapsto> GraphRef h,
                                                        ''TS'' \<mapsto> Array TS',
                                                        ''index_to_node'' \<mapsto> Dict (index_to_node_of s))\<rparr>
                    in (Inr TS', w2)))"

text \<open>
  The inputs the specification calls valid, apart from the rates: \<open>G\<close> refers to a graph
  with at least one node, \<open>L\<close> is at least 1 and \<open>num_seeds\<close> lies between 0 and the
  number of nodes.
\<close>

definition valid_call :: "world \<Rightarrow> nat \<Rightarrow> int \<Rightarrow> int \<Rightarrow> bool" where
  "valid_call w G L num_seeds \<longleftrightarrow>
     G < length (heap w) \<and> wf_graph (heap w ! G) \<and> 1 \<le> length (nodes (heap w ! G))
     \<and> 1 \<le> L \<and> 0 \<le> num_seeds \<and> num_seeds \<le> int (length (nodes (heap w ! G)))"

text \<open>The seeds drawn at line 63: a permutation of \<open>num_seeds\<close> ones and \<open>N - num_seeds\<close> zeros.\<close>

definition seeds_of :: "rng \<Rightarrow> nat \<Rightarrow> int \<Rightarrow> int list" where
  "seeds_of g N num_seeds =
     fst (permutation (replicate (nat num_seeds) 1 @ replicate (N - nat num_seeds) 0) g)"

subsection \<open>A small instance\<close>

text \<open>Two nodes joined by an edge, without attributes; and the same graph during a run, node 0 infected.\<close>

definition K2 :: graph where
  "K2 = \<lparr>nodes = [0, 1],
          adj = (\<lambda>n. if n = 0 then [1] else if n = 1 then [0] else []),
          attrs = (\<lambda>n. Map.empty)\<rparr>"

definition K2_running :: graph where
  "K2_running = K2\<lparr>attrs := (\<lambda>n. [''infected'' \<mapsto> (if n = 0 then 1 else 0),
                                       ''next_infected'' \<mapsto> 0])\<rparr>"

text \<open>A store that holds this graph only, a model object without results, and two random sources.\<close>

definition W2 :: world where
  "W2 = \<lparr>heap = [K2], results = Map.empty\<rparr>"

definition rng_zero :: rng where
  "rng_zero = (\<lambda>n. 0)"

definition rng_half :: rng where
  "rng_half = (\<lambda>n. 2 ^ 52)"

section \<open>Properties\<close>

subsection \<open>The random source\<close>

lemma random_sample_range:
  "0 \<le> fst (random_sample g) \<and> fst (random_sample g) < 1"
proof -
  have "g 0 mod 2 ^ 53 < (2::nat) ^ 53" by simp
  then have "real (g 0 mod 2 ^ 53) < 2 ^ 53"
    by (metis of_nat_less_iff of_nat_numeral of_nat_power)
  then show ?thesis
    by (simp add: random_sample_def next_word_def)
qed

lemma random_interval_le: "fst (random_interval m g) \<le> m"
  by (simp add: random_interval_def next_word_def less_Suc_eq_le [symmetric])

lemma shuffle_mset: "i < length xs \<Longrightarrow> mset (fst (shuffle i xs g)) = mset xs"
proof (induction i arbitrary: xs g)
  case 0
  then show ?case by simp
next
  case (Suc i)
  obtain j g' where r: "random_interval (Suc i) g = (j, g')"
    by (cases "random_interval (Suc i) g")
  have j: "j \<le> Suc i"
    using random_interval_le [of "Suc i" g] r by simp
  let ?ys = "xs[Suc i := xs ! j, j := xs ! Suc i]"
  have m: "mset ?ys = mset xs"
    using Suc.prems j by (simp add: mset_swap)
  have "i < length ?ys" using Suc.prems by simp
  then have "mset (fst (shuffle i ?ys g')) = mset ?ys"
    by (rule Suc.IH)
  then show ?case using r m by simp
qed

lemma permutation_mset: "mset (fst (permutation xs g)) = mset xs"
proof (cases xs)
  case Nil
  then show ?thesis by (simp add: permutation_def)
next
  case (Cons x xs')
  then show ?thesis by (simp add: permutation_def shuffle_mset)
qed

lemma permutation_set: "set (fst (permutation xs g)) = set xs"
  by (metis permutation_mset set_mset_mset)

lemma permutation_length: "length (fst (permutation xs g)) = length xs"
  by (metis permutation_mset size_mset)

lemma permutation_sum_list: "sum_list (fst (permutation xs g)) = sum_list (xs :: int list)"
  by (metis permutation_mset sum_mset_sum_list)

subsection \<open>Attribute updates keep the nodes and the edges\<close>

lemma set_node_attr_frame:
  "set_node_attr H n name v = Inr H' \<Longrightarrow> nodes H' = nodes H \<and> adj H' = adj H"
  by (auto simp: set_node_attr_def split: if_splits)

lemma set_node_attr_attrs:
  "set_node_attr H n name v = Inr H' \<Longrightarrow>
   attrs H' m k = (if m = n \<and> k = name then Some v else attrs H m k)"
  by (auto simp: set_node_attr_def split: if_splits)

lemma set_node_attr_ok:
  "n \<in> set (nodes H) \<Longrightarrow> \<exists>H'. set_node_attr H n name v = Inr H'"
  by (simp add: set_node_attr_def)

lemma fold_const_frame:
  "nodes (fold (\<lambda>n H'. H'\<lparr>attrs := (attrs H')(n := (attrs H' n)(name \<mapsto> v))\<rparr>) ns H) = nodes H
   \<and> adj (fold (\<lambda>n H'. H'\<lparr>attrs := (attrs H')(n := (attrs H' n)(name \<mapsto> v))\<rparr>) ns H) = adj H"
  by (induction ns arbitrary: H) auto

lemma fold_const_attrs:
  "attrs (fold (\<lambda>n H'. H'\<lparr>attrs := (attrs H')(n := (attrs H' n)(name \<mapsto> v))\<rparr>) ns H) m k
   = (if m \<in> set ns \<and> k = name then Some v else attrs H m k)"
  by (induction ns arbitrary: H) auto

lemma set_node_attributes_const_nodes [simp]:
  "nodes (set_node_attributes_const H v name) = nodes H"
  by (simp add: set_node_attributes_const_def fold_const_frame)

lemma set_node_attributes_const_adj [simp]:
  "adj (set_node_attributes_const H v name) = adj H"
  by (simp add: set_node_attributes_const_def fold_const_frame)

lemma set_node_attributes_const_attrs:
  "attrs (set_node_attributes_const H v name) m k
   = (if m \<in> set (nodes H) \<and> k = name then Some v else attrs H m k)"
  by (simp add: set_node_attributes_const_def fold_const_attrs)

lemma fold_dict_frame:
  "nodes (fold (dict_step name) vs H) = nodes H \<and> adj (fold (dict_step name) vs H) = adj H"
  by (induction vs arbitrary: H) (auto simp: dict_step_def)

lemma fold_dict_attrs:
  "attrs (fold (dict_step name) vs H) m k
   = (if m \<in> set (nodes H) \<and> k = name
      then (case map_of (rev vs) m of None \<Rightarrow> attrs H m k | Some v \<Rightarrow> Some v)
      else attrs H m k)"
proof (induction vs arbitrary: H)
  case Nil
  then show ?case by simp
next
  case (Cons p vs)
  obtain n v where p: "p = (n, v)" by (cases p)
  let ?H1 = "dict_step name (n, v) H"
  have n1: "nodes ?H1 = nodes H" by (simp add: dict_step_def)
  have a1: "attrs ?H1 m k = (if m \<in> set (nodes H) \<and> k = name \<and> m = n then Some v else attrs H m k)"
    by (simp add: dict_step_def)
  have "attrs (fold (dict_step name) (p # vs) H) m k = attrs (fold (dict_step name) vs ?H1) m k"
    by (simp add: p)
  also have "\<dots> = (if m \<in> set (nodes ?H1) \<and> k = name
      then (case map_of (rev vs) m of None \<Rightarrow> attrs ?H1 m k | Some v \<Rightarrow> Some v)
      else attrs ?H1 m k)"
    by (rule Cons.IH)
  also have "\<dots> = (if m \<in> set (nodes H) \<and> k = name
      then (case map_of (rev (p # vs)) m of None \<Rightarrow> attrs H m k | Some v \<Rightarrow> Some v)
      else attrs H m k)"
    unfolding n1 a1 by (auto simp: p map_add_def split: option.splits)
  finally show ?case .
qed

lemma set_node_attributes_dict_nodes [simp]:
  "nodes (set_node_attributes_dict H vs name) = nodes H"
  by (simp add: set_node_attributes_dict_def fold_dict_frame)

lemma set_node_attributes_dict_adj [simp]:
  "adj (set_node_attributes_dict H vs name) = adj H"
  by (simp add: set_node_attributes_dict_def fold_dict_frame)

lemma set_node_attributes_dict_attrs:
  "attrs (set_node_attributes_dict H vs name) m k
   = (if m \<in> set (nodes H) \<and> k = name
      then (case map_of (rev vs) m of None \<Rightarrow> attrs H m k | Some v \<Rightarrow> Some v)
      else attrs H m k)"
  by (simp add: set_node_attributes_dict_def fold_dict_attrs)

text \<open>When every node has the attribute, the dictionary read off the graph lists all nodes.\<close>

lemma get_node_attributes_all:
  "\<forall>n \<in> set ns. attrs H n name \<noteq> None \<Longrightarrow>
   List.map_filter (\<lambda>n. map_option (Pair n) (attrs H n name)) ns
     = map (\<lambda>n. (n, the (attrs H n name))) ns"
  by (induction ns) (auto simp: List.map_filter_simps)

lemma get_node_attributes_total:
  "\<forall>n \<in> set (nodes H). attrs H n name \<noteq> None \<Longrightarrow>
   get_node_attributes H name = map (\<lambda>n. (n, the (attrs H n name))) (nodes H)"
  by (simp add: get_node_attributes_def get_node_attributes_all)

lemma map_of_rev_graph:
  "map_of (rev (map (\<lambda>n. (n, f n)) ns)) m = (if m \<in> set ns then Some (f m) else None)"
proof (induction ns)
  case Nil
  then show ?case by simp
next
  case (Cons a ns)
  then show ?case by (auto simp: map_add_def split: option.splits)
qed

subsection \<open>The loop over the neighbours\<close>

lemma infect_neighbors_nodes:
  "infect_neighbors beta js (H, g) = Inr (H', g') \<Longrightarrow> nodes H' = nodes H \<and> adj H' = adj H"
  by (induction js arbitrary: H g)
     (auto simp: set_node_attr_def split: prod.splits sum.splits if_splits)

lemma infect_neighbors_other:
  "infect_neighbors beta js (H, g) = Inr (H', g') \<Longrightarrow> k \<noteq> ''next_infected'' \<Longrightarrow>
   attrs H' m k = attrs H m k"
  by (induction js arbitrary: H g)
     (auto simp: set_node_attr_def split: prod.splits sum.splits if_splits)

lemma infect_neighbors_next:
  "infect_neighbors beta js (H, g) = Inr (H', g') \<Longrightarrow>
   attrs H' m ''next_infected'' = attrs H m ''next_infected''
     \<or> attrs H' m ''next_infected'' = Some 1"
  by (induction js arbitrary: H g)
     (auto simp: set_node_attr_def split: prod.splits sum.splits if_splits)

lemma infect_neighbors_ok:
  "set js \<subseteq> set (nodes H) \<Longrightarrow> \<exists>H' g'. infect_neighbors beta js (H, g) = Inr (H', g')"
proof (induction js arbitrary: H g)
  case Nil
  then show ?case by simp
next
  case (Cons j js)
  obtain u g1 where r: "random_sample g = (u, g1)" by (cases "random_sample g")
  show ?case
  proof (cases "lt u beta")
    case True
    from Cons.prems obtain H1 where s: "set_node_attr H j ''next_infected'' 1 = Inr H1"
      using set_node_attr_ok [of j H "''next_infected''" 1] by auto
    with Cons.prems have "set js \<subseteq> set (nodes H1)"
      using set_node_attr_frame [OF s] by simp
    from Cons.IH [OF this, of g1] r True s show ?thesis by simp
  next
    case False
    from Cons.prems have "set js \<subseteq> set (nodes H)" by simp
    from Cons.IH [OF this, of g1] r False show ?thesis by simp
  qed
qed

lemma flag_set_next:
  assumes "set_node_attr H j ''next_infected'' 1 = Inr H1"
  shows "flag H1 ''next_infected'' = (flag H ''next_infected'')(j := True)"
    and "flag H1 ''infected'' = flag H ''infected''"
  using assms
  by (auto simp: flag_def set_node_attr_def fun_eq_iff split: if_splits)

lemma flag_clear_infected:
  assumes "set_node_attr H i ''infected'' 0 = Inr H1"
  shows "flag H1 ''infected'' = (flag H ''infected'')(i := False)"
    and "flag H1 ''next_infected'' = flag H ''next_infected''"
  using assms
  by (auto simp: flag_def set_node_attr_def fun_eq_iff split: if_splits)

lemma infect_neighbors_refines:
  "infect_neighbors beta js (H, g) = Inr (H', g') \<Longrightarrow>
   spec_spread beta js (flag H ''next_infected'', g) = (flag H' ''next_infected'', g')
   \<and> flag H' ''infected'' = flag H ''infected''"
proof (induction js arbitrary: H g)
  case Nil
  then show ?case by simp
next
  case (Cons j js)
  obtain u g1 where r: "random_sample g = (u, g1)" by (cases "random_sample g")
  show ?case
  proof (cases "lt u beta")
    case True
    with Cons.prems r obtain H1 where
      s: "set_node_attr H j ''next_infected'' 1 = Inr H1" and
      rest: "infect_neighbors beta js (H1, g1) = Inr (H', g')"
      by (auto split: sum.splits)
    from Cons.IH [OF rest]
    have ih1: "spec_spread beta js (flag H1 ''next_infected'', g1) = (flag H' ''next_infected'', g')"
      and ih2: "flag H' ''infected'' = flag H1 ''infected''"
      by blast+
    have e1: "flag H1 ''next_infected'' = (flag H ''next_infected'')(j := True)"
      and e2: "flag H1 ''infected'' = flag H ''infected''"
      using flag_set_next [OF s] by blast+
    have step: "spec_spread beta (j # js) (flag H ''next_infected'', g)
                  = spec_spread beta js (flag H1 ''next_infected'', g1)"
      unfolding e1 using r True by simp
    show ?thesis unfolding step using ih1 ih2 e2 by simp
  next
    case False
    with Cons.prems r have "infect_neighbors beta js (H, g1) = Inr (H', g')" by simp
    from Cons.IH [OF this] r False show ?thesis by simp
  qed
qed

subsection \<open>The loop over the nodes\<close>

lemma visit_nodes_ConsE:
  assumes "visit_nodes beta mu (i # rest) (H, g) = Inr (H', g')"
  obtains
    (skip) "get_node_attr H i ''infected'' = Inr 0"
      "visit_nodes beta mu rest (H, g) = Inr (H', g')"
  | (cure) v H1 g1 u g2 H2 where
      "get_node_attr H i ''infected'' = Inr v" "v \<noteq> 0"
      "infect_neighbors beta (adj H i) (H, g) = Inr (H1, g1)"
      "random_sample g1 = (u, g2)" "lt u mu"
      "set_node_attr H1 i ''infected'' 0 = Inr H2"
      "visit_nodes beta mu rest (H2, g2) = Inr (H', g')"
  | (stay) v H1 g1 u g2 H2 where
      "get_node_attr H i ''infected'' = Inr v" "v \<noteq> 0"
      "infect_neighbors beta (adj H i) (H, g) = Inr (H1, g1)"
      "random_sample g1 = (u, g2)" "\<not> lt u mu"
      "set_node_attr H1 i ''next_infected'' 1 = Inr H2"
      "visit_nodes beta mu rest (H2, g2) = Inr (H', g')"
proof (cases "get_node_attr H i ''infected''")
  case (Inl e)
  with assms show ?thesis by simp
next
  case (Inr v)
  show ?thesis
  proof (cases "v = 0")
    case True
    with assms Inr show ?thesis by (intro skip) simp_all
  next
    case False
    with assms Inr obtain H1 g1 where
      n: "infect_neighbors beta (adj H i) (H, g) = Inr (H1, g1)"
      by (auto split: sum.splits)
    obtain u g2 where r: "random_sample g1 = (u, g2)" by (cases "random_sample g1")
    show ?thesis
    proof (cases "lt u mu")
      case True
      with assms Inr False n r obtain H2 where
        "set_node_attr H1 i ''infected'' 0 = Inr H2"
        "visit_nodes beta mu rest (H2, g2) = Inr (H', g')"
        by (auto split: sum.splits)
      with Inr False n r True show ?thesis by (intro cure)
    next
      case nlt: False
      with assms Inr False n r obtain H2 where
        "set_node_attr H1 i ''next_infected'' 1 = Inr H2"
        "visit_nodes beta mu rest (H2, g2) = Inr (H', g')"
        by (auto split: sum.splits)
      with Inr False n r nlt show ?thesis by (intro stay)
    qed
  qed
qed

lemma visit_nodes_nodes:
  "visit_nodes beta mu order (H, g) = Inr (H', g') \<Longrightarrow> nodes H' = nodes H \<and> adj H' = adj H"
proof (induction order arbitrary: H g)
  case Nil
  then show ?case by simp
next
  case (Cons i rest)
  from Cons.prems show ?case
  proof (cases rule: visit_nodes_ConsE)
    case skip
    then show ?thesis using Cons.IH by blast
  next
    case (cure v H1 g1 u g2 H2)
    then show ?thesis
      using Cons.IH [of H2 g2] infect_neighbors_nodes [of beta "adj H i" H g H1 g1]
        set_node_attr_frame [of H1 i "''infected''" 0 H2] by simp
  next
    case (stay v H1 g1 u g2 H2)
    then show ?thesis
      using Cons.IH [of H2 g2] infect_neighbors_nodes [of beta "adj H i" H g H1 g1]
        set_node_attr_frame [of H1 i "''next_infected''" 1 H2] by simp
  qed
qed

lemma visit_nodes_other:
  "visit_nodes beta mu order (H, g) = Inr (H', g') \<Longrightarrow>
   k \<noteq> ''infected'' \<Longrightarrow> k \<noteq> ''next_infected'' \<Longrightarrow> attrs H' m k = attrs H m k"
proof (induction order arbitrary: H g)
  case Nil
  then show ?case by simp
next
  case (Cons i rest)
  from Cons.prems(1) show ?case
  proof (cases rule: visit_nodes_ConsE)
    case skip
    then show ?thesis using Cons.IH Cons.prems by blast
  next
    case (cure v H1 g1 u g2 H2)
    then show ?thesis
      using Cons.IH [of H2 g2] Cons.prems(2,3)
        infect_neighbors_other [of beta "adj H i" H g H1 g1 k m]
        set_node_attr_attrs [of H1 i "''infected''" 0 H2 m k] by simp
  next
    case (stay v H1 g1 u g2 H2)
    then show ?thesis
      using Cons.IH [of H2 g2] Cons.prems(2,3)
        infect_neighbors_other [of beta "adj H i" H g H1 g1 k m]
        set_node_attr_attrs [of H1 i "''next_infected''" 1 H2 m k] by simp
  qed
qed

lemma visit_nodes_next:
  "visit_nodes beta mu order (H, g) = Inr (H', g') \<Longrightarrow>
   attrs H' m ''next_infected'' = attrs H m ''next_infected''
     \<or> attrs H' m ''next_infected'' = Some 1"
proof (induction order arbitrary: H g)
  case Nil
  then show ?case by simp
next
  case (Cons i rest)
  from Cons.prems(1) show ?case
  proof (cases rule: visit_nodes_ConsE)
    case skip
    then show ?thesis using Cons.IH by blast
  next
    case (cure v H1 g1 u g2 H2)
    then show ?thesis
      using Cons.IH [of H2 g2]
        infect_neighbors_next [of beta "adj H i" H g H1 g1 m]
        set_node_attr_attrs [of H1 i "''infected''" 0 H2 m "''next_infected''"] by auto
  next
    case (stay v H1 g1 u g2 H2)
    then show ?thesis
      using Cons.IH [of H2 g2]
        infect_neighbors_next [of beta "adj H i" H g H1 g1 m]
        set_node_attr_attrs [of H1 i "''next_infected''" 1 H2 m "''next_infected''"]
      by (auto split: if_splits)
  qed
qed

lemma visit_nodes_infected:
  "visit_nodes beta mu order (H, g) = Inr (H', g') \<Longrightarrow>
   attrs H' m ''infected'' = attrs H m ''infected'' \<or> attrs H' m ''infected'' = Some 0"
proof (induction order arbitrary: H g)
  case Nil
  then show ?case by simp
next
  case (Cons i rest)
  from Cons.prems(1) show ?case
  proof (cases rule: visit_nodes_ConsE)
    case skip
    then show ?thesis using Cons.IH by blast
  next
    case (cure v H1 g1 u g2 H2)
    then show ?thesis
      using Cons.IH [of H2 g2]
        infect_neighbors_other [of beta "adj H i" H g H1 g1 "''infected''" m]
        set_node_attr_attrs [of H1 i "''infected''" 0 H2 m "''infected''"]
      by (auto split: if_splits)
  next
    case (stay v H1 g1 u g2 H2)
    then show ?thesis
      using Cons.IH [of H2 g2]
        infect_neighbors_other [of beta "adj H i" H g H1 g1 "''infected''" m]
        set_node_attr_attrs [of H1 i "''next_infected''" 1 H2 m "''infected''"]
      by auto
  qed
qed

lemma wf_graph_cong:
  "nodes H' = nodes H \<Longrightarrow> adj H' = adj H \<Longrightarrow> wf_graph H' = wf_graph H"
  by (simp add: wf_graph_def)

lemma clean_ready: "clean H \<Longrightarrow> ready H"
  by (auto simp: clean_def ready_def)

lemma visit_nodes_ready:
  assumes "visit_nodes beta mu order (H, g) = Inr (H', g')" and "ready H"
  shows "ready H'"
  unfolding ready_def
proof (intro ballI)
  fix n assume "n \<in> set (nodes H')"
  then have n: "n \<in> set (nodes H)" using visit_nodes_nodes [OF assms(1)] by simp
  with assms(2) have "attrs H n ''infected'' \<noteq> None" "attrs H n ''next_infected'' \<noteq> None"
    by (auto simp: ready_def)
  with visit_nodes_infected [OF assms(1), of n] visit_nodes_next [OF assms(1), of n]
  show "attrs H' n ''infected'' \<noteq> None \<and> attrs H' n ''next_infected'' \<noteq> None"
    by auto
qed

lemma infect_neighbors_ready:
  assumes "infect_neighbors beta js (H, g) = Inr (H', g')" and "ready H"
  shows "ready H'"
  unfolding ready_def
proof (intro ballI)
  fix n assume "n \<in> set (nodes H')"
  then have n: "n \<in> set (nodes H)" using infect_neighbors_nodes [OF assms(1)] by simp
  with assms(2) have "attrs H n ''infected'' \<noteq> None" "attrs H n ''next_infected'' \<noteq> None"
    by (auto simp: ready_def)
  with infect_neighbors_other [OF assms(1), of "''infected''" n] infect_neighbors_next [OF assms(1), of n]
  show "attrs H' n ''infected'' \<noteq> None \<and> attrs H' n ''next_infected'' \<noteq> None"
    by auto
qed

lemma set_node_attr_ready:
  "set_node_attr H n name v = Inr H' \<Longrightarrow> ready H \<Longrightarrow> ready H'"
  by (auto simp: set_node_attr_def ready_def split: if_splits)

lemma visit_nodes_ok:
  "wf_graph H \<Longrightarrow> ready H \<Longrightarrow> set order \<subseteq> set (nodes H) \<Longrightarrow>
   \<exists>H' g'. visit_nodes beta mu order (H, g) = Inr (H', g')"
proof (induction order arbitrary: H g)
  case Nil
  then show ?case by simp
next
  case (Cons i rest)
  from Cons.prems have i: "i \<in> set (nodes H)" and rest: "set rest \<subseteq> set (nodes H)" by auto
  from i Cons.prems(2) obtain v where v: "attrs H i ''infected'' = Some v"
    by (auto simp: ready_def)
  with i have ga: "get_node_attr H i ''infected'' = Inr v" by (simp add: get_node_attr_def)
  show ?case
  proof (cases "v = 0")
    case True
    with ga Cons.IH [OF Cons.prems(1,2) rest, of g] show ?thesis by simp
  next
    case False
    from i Cons.prems(1) have "set (adj H i) \<subseteq> set (nodes H)" by (auto simp: wf_graph_def)
    from infect_neighbors_ok [OF this] obtain H1 g1 where
      n: "infect_neighbors beta (adj H i) (H, g) = Inr (H1, g1)" by blast
    note f1 = infect_neighbors_nodes [OF n]
    have r1: "ready H1" using infect_neighbors_ready [OF n Cons.prems(2)] .
    obtain u g2 where r: "random_sample g1 = (u, g2)" by (cases "random_sample g1")
    let ?w = "if lt u mu then set_node_attr H1 i ''infected'' 0
              else set_node_attr H1 i ''next_infected'' 1"
    from i f1 have "\<exists>H2. ?w = Inr H2"
      by (simp add: set_node_attr_def)
    then obtain H2 where w: "?w = Inr H2" by blast
    then have f2: "nodes H2 = nodes H1 \<and> adj H2 = adj H1" and r2: "ready H2"
      using set_node_attr_frame set_node_attr_ready [OF _ r1] by (auto split: if_splits)
    have wf2: "wf_graph H2" using Cons.prems(1) f1 f2 by (simp add: wf_graph_def)
    have "set rest \<subseteq> set (nodes H2)" using rest f1 f2 by simp
    from Cons.IH [OF wf2 r2 this, of g2] obtain H' g' where
      "visit_nodes beta mu rest (H2, g2) = Inr (H', g')" by blast
    with ga False n r w show ?thesis by simp
  qed
qed

lemma flag_infected_get:
  "get_node_attr H i ''infected'' = Inr v \<Longrightarrow> flag H ''infected'' i = (v \<noteq> 0)"
  by (auto simp: get_node_attr_def flag_def split: if_splits option.splits)

lemma visit_nodes_refines:
  "visit_nodes beta mu order (H, g) = Inr (H', g') \<Longrightarrow>
   spec_visit beta mu (adj H) order (flag H ''infected'', flag H ''next_infected'', g)
     = (flag H' ''infected'', flag H' ''next_infected'', g')"
proof (induction order arbitrary: H g)
  case Nil
  then show ?case by simp
next
  case (Cons i rest)
  from Cons.prems show ?case
  proof (cases rule: visit_nodes_ConsE)
    case skip
    from flag_infected_get [OF skip(1)] Cons.IH [OF skip(2)] show ?thesis by simp
  next
    case (cure v H1 g1 u g2 H2)
    have fi: "flag H ''infected'' i" using flag_infected_get [OF cure(1)] cure(2) by simp
    note sp = infect_neighbors_refines [OF cure(3)]
    have e1: "flag H2 ''infected'' = (flag H1 ''infected'')(i := False)"
      and e2: "flag H2 ''next_infected'' = flag H1 ''next_infected''"
      using flag_clear_infected [OF cure(6)] by blast+
    have a: "adj H2 = adj H"
      using infect_neighbors_nodes [OF cure(3)] set_node_attr_frame [OF cure(6)] by simp
    have step: "spec_visit beta mu (adj H) (i # rest) (flag H ''infected'', flag H ''next_infected'', g)
                  = spec_visit beta mu (adj H2) rest (flag H2 ''infected'', flag H2 ''next_infected'', g2)"
      unfolding e1 e2 a using fi sp cure(4,5) by simp
    show ?thesis unfolding step using Cons.IH [OF cure(7)] .
  next
    case (stay v H1 g1 u g2 H2)
    have fi: "flag H ''infected'' i" using flag_infected_get [OF stay(1)] stay(2) by simp
    note sp = infect_neighbors_refines [OF stay(3)]
    have e1: "flag H2 ''next_infected'' = (flag H1 ''next_infected'')(i := True)"
      and e2: "flag H2 ''infected'' = flag H1 ''infected''"
      using flag_set_next [OF stay(6)] by blast+
    have a: "adj H2 = adj H"
      using infect_neighbors_nodes [OF stay(3)] set_node_attr_frame [OF stay(6)] by simp
    have step: "spec_visit beta mu (adj H) (i # rest) (flag H ''infected'', flag H ''next_infected'', g)
                  = spec_visit beta mu (adj H2) rest (flag H2 ''infected'', flag H2 ''next_infected'', g2)"
      unfolding e1 e2 a using fi sp stay(4,5) by simp
    show ?thesis unfolding step using Cons.IH [OF stay(7)] .
  qed
qed

subsection \<open>The commit of the staged flags and the whole pass\<close>

lemma commit_attrs:
  assumes "ready H1"
  shows "attrs (set_node_attributes_const
                  (set_node_attributes_dict H1 (get_node_attributes H1 ''next_infected'') ''infected'')
                  0 ''next_infected'') m k
         = (if m \<in> set (nodes H1) \<and> k = ''next_infected'' then Some 0
            else if m \<in> set (nodes H1) \<and> k = ''infected'' then attrs H1 m ''next_infected''
            else attrs H1 m k)"
proof -
  have all: "\<forall>n \<in> set (nodes H1). attrs H1 n ''next_infected'' \<noteq> None"
    using assms by (simp add: ready_def)
  have g: "get_node_attributes H1 ''next_infected''
             = map (\<lambda>n. (n, the (attrs H1 n ''next_infected''))) (nodes H1)"
    using get_node_attributes_total [OF all] .
  show ?thesis
    using all
    by (auto simp: set_node_attributes_const_attrs set_node_attributes_dict_attrs g map_of_rev_graph)
qed

lemma sis_pass_char:
  assumes "wf_graph H" and "ready H"
  shows "\<exists>H1 g'. visit_nodes beta mu (fst (permutation (nodes H) g))
                    (H, snd (permutation (nodes H) g)) = Inr (H1, g')
           \<and> sis_pass beta mu (H, g)
               = Inr (set_node_attributes_const
                        (set_node_attributes_dict H1 (get_node_attributes H1 ''next_infected'')
                           ''infected'')
                        0 ''next_infected'', g')"
proof -
  obtain order g1 where p: "permutation (nodes H) g = (order, g1)"
    by (cases "permutation (nodes H) g")
  have "set order \<subseteq> set (nodes H)"
    using permutation_set [of "nodes H" g] p by simp
  from visit_nodes_ok [OF assms this] obtain H1 g' where
    v: "visit_nodes beta mu order (H, g1) = Inr (H1, g')" by blast
  then show ?thesis using p by (simp add: sis_pass_def)
qed

lemma sis_pass_clean:
  assumes "wf_graph H" and "clean H"
  shows "\<exists>H' g'. sis_pass beta mu (H, g) = Inr (H', g')
           \<and> nodes H' = nodes H \<and> adj H' = adj H \<and> clean H'
           \<and> (\<forall>m k. k \<noteq> ''infected'' \<longrightarrow> k \<noteq> ''next_infected'' \<longrightarrow> attrs H' m k = attrs H m k)"
proof -
  have r: "ready H" using assms(2) by (rule clean_ready)
  from sis_pass_char [OF assms(1) r] obtain H1 g' where
    v: "visit_nodes beta mu (fst (permutation (nodes H) g))
          (H, snd (permutation (nodes H) g)) = Inr (H1, g')" and
    s: "sis_pass beta mu (H, g)
          = Inr (set_node_attributes_const
                   (set_node_attributes_dict H1 (get_node_attributes H1 ''next_infected'')
                      ''infected'')
                   0 ''next_infected'', g')"
    by blast
  let ?H' = "set_node_attributes_const
               (set_node_attributes_dict H1 (get_node_attributes H1 ''next_infected'') ''infected'')
               0 ''next_infected''"
  note f = visit_nodes_nodes [OF v]
  have r1: "ready H1" using visit_nodes_ready [OF v r] .
  note a = commit_attrs [OF r1]
  have c: "clean ?H'"
    unfolding clean_def
  proof (intro ballI)
    fix n assume "n \<in> set (nodes ?H')"
    then have n: "n \<in> set (nodes H)" using f by simp
    with assms(2) have "attrs H n ''next_infected'' = Some 0" by (simp add: clean_def)
    with visit_nodes_next [OF v, of n]
    have "attrs H1 n ''next_infected'' = Some 0 \<or> attrs H1 n ''next_infected'' = Some 1"
      by auto
    with n f show "(attrs ?H' n ''infected'' = Some 0 \<or> attrs ?H' n ''infected'' = Some 1)
                     \<and> attrs ?H' n ''next_infected'' = Some 0"
      by (simp add: a)
  qed
  have o: "\<forall>m k. k \<noteq> ''infected'' \<longrightarrow> k \<noteq> ''next_infected'' \<longrightarrow> attrs ?H' m k = attrs H m k"
    using visit_nodes_other [OF v] by (simp add: a)
  show ?thesis using s f c o by simp
qed

lemma sis_pass_refines:
  assumes "wf_graph H" and "ready H"
  shows "\<exists>H' g'. sis_pass beta mu (H, g) = Inr (H', g')
           \<and> spec_pass beta mu (nodes H) (adj H) (flag H ''infected'', flag H ''next_infected'', g)
               = (flag H' ''infected'', flag H' ''next_infected'', g')"
proof -
  from sis_pass_char [OF assms] obtain H1 g' where
    v: "visit_nodes beta mu (fst (permutation (nodes H) g))
          (H, snd (permutation (nodes H) g)) = Inr (H1, g')" and
    s: "sis_pass beta mu (H, g)
          = Inr (set_node_attributes_const
                   (set_node_attributes_dict H1 (get_node_attributes H1 ''next_infected'')
                      ''infected'')
                   0 ''next_infected'', g')"
    by blast
  let ?H' = "set_node_attributes_const
               (set_node_attributes_dict H1 (get_node_attributes H1 ''next_infected'') ''infected'')
               0 ''next_infected''"
  have r1: "ready H1" using visit_nodes_ready [OF v assms(2)] .
  note a = commit_attrs [OF r1]
  have fi: "flag ?H' ''infected'' = flag H1 ''next_infected''"
    by (auto simp: flag_def a fun_eq_iff)
  have fn: "flag ?H' ''next_infected'' = (\<lambda>_. False)"
    by (auto simp: flag_def a fun_eq_iff)
  have "spec_pass beta mu (nodes H) (adj H) (flag H ''infected'', flag H ''next_infected'', g)
          = (flag H1 ''next_infected'', (\<lambda>_. False), g')"
    using visit_nodes_refines [OF v]
    by (cases "permutation (nodes H) g") (simp add: spec_pass_def)
  then show ?thesis using s fi fn by simp
qed

lemma wf_graph_K2_running: "wf_graph K2_running"
  by (simp add: wf_graph_def K2_running_def K2_def)

lemma ready_K2_running: "ready K2_running"
  by (simp add: ready_def K2_running_def K2_def)

subsection \<open>The seeds and the initial state\<close>

lemma map_of_index_to_node:
  "i < length ns \<Longrightarrow> map_of (zip [0..<length ns] ns) i = Some (ns ! i)"
  using map_of_zip_nth [of "[0..<length ns]" ns i] by simp

lemma infected_attr_enumerate:
  "n + length xs \<le> length ns \<Longrightarrow>
   infected_attr (zip [0..<length ns] ns) (enumerate n xs) = Inr (zip (drop n ns) xs)"
proof (induction xs arbitrary: n)
  case Nil
  then show ?case by simp
next
  case (Cons x xs)
  from Cons.prems have n: "n < length ns" and s: "Suc n + length xs \<le> length ns" by simp_all
  have d: "drop n ns = ns ! n # drop (Suc n) ns"
    using n by (simp add: Cons_nth_drop_Suc)
  show ?case
    using Cons.IH [OF s] map_of_index_to_node [OF n] by (simp add: d)
qed

lemma infected_attr_seeds:
  "length seeds = length ns \<Longrightarrow>
   infected_attr (zip [0..<length ns] ns) (enumerate 0 seeds) = Inr (zip ns seeds)"
  using infected_attr_enumerate [of 0 seeds ns] by simp

lemma map_of_rev_zip_nth:
  assumes "length xs = length ys" and "distinct xs" and "i < length xs"
  shows "map_of (rev (zip xs ys)) (xs ! i) = Some (ys ! i)"
proof -
  let ?j = "length xs - Suc i"
  have j: "?j < length (rev ys)" using assms by simp
  have "map_of (zip (rev xs) (rev ys)) (rev xs ! ?j) = Some (rev ys ! ?j)"
    using assms j by (intro map_of_zip_nth) simp_all
  moreover have "rev xs ! ?j = xs ! i" using assms by (simp add: rev_nth)
  moreover have "rev ys ! ?j = ys ! i" using assms by (simp add: rev_nth)
  ultimately show ?thesis using assms(1) by (simp add: zip_rev)
qed

lemma map_of_rev_zip_in:
  assumes "length xs = length ys" and "x \<in> set xs"
  shows "\<exists>y \<in> set ys. map_of (rev (zip xs ys)) x = Some y"
proof -
  have "x \<in> set (rev xs)" using assms by simp
  then obtain y where y: "map_of (zip (rev xs) (rev ys)) x = Some y"
    using map_of_zip_is_Some [of "rev xs" "rev ys" x] assms(1) by auto
  then have "(x, y) \<in> set (zip (rev xs) (rev ys))" by (rule map_of_SomeD)
  then have "y \<in> set ys" by (auto dest: set_zip_rightD)
  with y assms(1) show ?thesis by (auto simp: zip_rev)
qed

text \<open>The vector that is permuted: \<open>k\<close> ones followed by \<open>N - k\<close> zeros.\<close>

lemma seeds_props:
  fixes k :: nat and g :: rng
  assumes "k \<le> N"
  defines "seeds \<equiv> fst (permutation (replicate k (1::int) @ replicate (N - k) 0) g)"
  shows "length seeds = N" and "sum_list seeds = int k" and "set seeds \<subseteq> {0, 1}"
    and "mset seeds = replicate_mset k 1 + replicate_mset (N - k) 0"
proof -
  show "length seeds = N" using assms by (simp add: permutation_length)
  show "sum_list seeds = int k" unfolding seeds_def by (simp add: permutation_sum_list sum_list_replicate)
  show "set seeds \<subseteq> {0, 1}" unfolding seeds_def by (auto simp: permutation_set)
  show "mset seeds = replicate_mset k 1 + replicate_mset (N - k) 0"
    unfolding seeds_def by (simp add: permutation_mset)
qed

lemma sis_init_ok:
  fixes H :: graph and L num_seeds :: int
  defines "N \<equiv> length (nodes H)"
  defines "p \<equiv> permutation (replicate (nat num_seeds) (1::int) @ replicate (N - nat num_seeds) 0)"
  assumes "0 < N" and "1 \<le> L" and "0 \<le> num_seeds" and "num_seeds \<le> int N"
  shows "\<exists>mu'. default_mu H mu = Inr mu' \<and>
         sis_init g H L num_seeds beta mu =
           Inr \<lparr>graph_of = set_node_attributes_const
                              (set_node_attributes_dict H (zip (nodes H) (fst (p g))) ''infected'')
                              0 ''next_infected'',
                ts_of = \<lparr>nrows = N, ncols = nat L,
                          cols = (replicate (nat L) (replicate N 0))[0 := fst (p g)]\<rparr>,
                index_to_node_of = zip [0..<N] (nodes H),
                beta_of = default_beta H beta, mu_of = mu', rng_of = snd (p g)\<rparr>"
proof -
  have "\<exists>mu'. default_mu H mu = Inr mu'"
    using assms(3) by (cases mu) (simp_all add: default_mu_def number_of_nodes_def N_def Let_def)
  then obtain mu' where m: "default_mu H mu = Inr mu'" by blast
  have k: "nat num_seeds \<le> N" using assms(5,6) by simp
  have z: "nat (int N - num_seeds) = N - nat num_seeds" using assms(5,6) by simp
  have len: "length (fst (p g)) = N"
    unfolding p_def using k by (simp add: permutation_length)
  have ia: "infected_attr (zip [0..<length (nodes H)] (nodes H)) (enumerate 0 (fst (p g)))
              = Inr (zip (nodes H) (fst (p g)))"
    using len by (intro infected_attr_seeds) (simp add: N_def)
  have sc: "set_col \<lparr>nrows = N, ncols = nat L, cols = replicate (nat L) (replicate N 0)\<rparr> 0 (fst (p g))
              = Inr \<lparr>nrows = N, ncols = nat L,
                     cols = (replicate (nat L) (replicate N 0))[0 := fst (p g)]\<rparr>"
    using assms(4) len by (simp add: set_col_def)
  obtain seeds g' where pg: "p g = (seeds, g')" by (cases "p g")
  show ?thesis
    using m assms(4,5,6) z ia sc pg
    by (simp add: sis_init_def np_zeros_def np_repeat_def number_of_nodes_def N_def [symmetric]
          p_def [symmetric] Let_def)
qed

lemma init_graph_clean:
  assumes "length seeds = length (nodes H)" and "set seeds \<subseteq> {0, 1}"
  shows "clean (set_node_attributes_const
                  (set_node_attributes_dict H (zip (nodes H) seeds) ''infected'')
                  0 ''next_infected'')"
  unfolding clean_def
proof (intro ballI)
  fix n
  assume "n \<in> set (nodes (set_node_attributes_const
                  (set_node_attributes_dict H (zip (nodes H) seeds) ''infected'')
                  0 ''next_infected''))"
  then have n: "n \<in> set (nodes H)" by simp
  from map_of_rev_zip_in [OF assms(1) [symmetric] n] obtain y where
    "y \<in> set seeds" "map_of (rev (zip (nodes H) seeds)) n = Some y" by blast
  with assms(2) n
  show "(attrs (set_node_attributes_const
                  (set_node_attributes_dict H (zip (nodes H) seeds) ''infected'')
                  0 ''next_infected'') n ''infected'' = Some 0
         \<or> attrs (set_node_attributes_const
                  (set_node_attributes_dict H (zip (nodes H) seeds) ''infected'')
                  0 ''next_infected'') n ''infected'' = Some 1)
        \<and> attrs (set_node_attributes_const
                  (set_node_attributes_dict H (zip (nodes H) seeds) ''infected'')
                  0 ''next_infected'') n ''next_infected'' = Some 0"
    by (auto simp: set_node_attributes_const_attrs set_node_attributes_dict_attrs)
qed

lemma init_graph_infected:
  assumes "length seeds = length (nodes H)" and "distinct (nodes H)" and "i < length (nodes H)"
  shows "attrs (set_node_attributes_const
                  (set_node_attributes_dict H (zip (nodes H) seeds) ''infected'')
                  0 ''next_infected'') (nodes H ! i) ''infected'' = Some (seeds ! i)"
  using map_of_rev_zip_nth [OF assms(1) [symmetric] assms(2,3)] assms(3)
  by (simp add: set_node_attributes_const_attrs set_node_attributes_dict_attrs)

subsection \<open>One iteration of the main loop\<close>

lemma clean_infections:
  assumes "clean H"
  shows "length (map snd (get_node_attributes H ''infected'')) = length (nodes H)"
    and "set (map snd (get_node_attributes H ''infected'')) \<subseteq> {0, 1}"
proof -
  have all: "\<forall>n \<in> set (nodes H). attrs H n ''infected'' \<noteq> None"
    using assms by (auto simp: clean_def)
  note g = get_node_attributes_total [OF all]
  show "length (map snd (get_node_attributes H ''infected'')) = length (nodes H)"
    by (simp add: g)
  show "set (map snd (get_node_attributes H ''infected'')) \<subseteq> {0, 1}"
    using assms by (auto simp: g clean_def)
qed

lemma sis_step_ok:
  assumes "wf_graph H" and "clean H" and "nrows TS = length (nodes H)" and "t < ncols TS"
  shows "\<exists>H' g' col. sis_step beta mu t (H, TS, g) = Inr (H', TS\<lparr>cols := (cols TS)[t := col]\<rparr>, g')
           \<and> length col = length (nodes H) \<and> set col \<subseteq> {0, 1}
           \<and> nodes H' = nodes H \<and> adj H' = adj H \<and> clean H'"
proof -
  from sis_pass_clean [OF assms(1,2), of beta mu g] obtain H' g' where
    p: "sis_pass beta mu (H, g) = Inr (H', g')" and
    f: "nodes H' = nodes H" "adj H' = adj H" and c: "clean H'"
    by blast
  let ?col = "map snd (get_node_attributes H' ''infected'')"
  have l: "length ?col = length (nodes H)" using clean_infections(1) [OF c] f by simp
  have b: "set ?col \<subseteq> {0, 1}" using clean_infections(2) [OF c] .
  have "set_col TS t ?col = Inr (TS\<lparr>cols := (cols TS)[t := ?col]\<rparr>)"
    using assms(3,4) l by (simp add: set_col_def)
  with p have "sis_step beta mu t (H, TS, g) = Inr (H', TS\<lparr>cols := (cols TS)[t := ?col]\<rparr>, g')"
    by (simp add: sis_step_def)
  with l b f c show ?thesis by blast
qed

lemma ts_inv_step:
  assumes "ts_inv N L t TS" and "t < L" and "1 \<le> t"
    and "1 \<le> sum_list (cols TS ! (t - 1))"
    and "length col = N" and "set col \<subseteq> {0, 1}"
  shows "ts_inv N L (Suc t) (TS\<lparr>cols := (cols TS)[t := col]\<rparr>)"
proof -
  note i = assms(1) [unfolded ts_inv_def]
  let ?TS = "TS\<lparr>cols := (cols TS)[t := col]\<rparr>"
  have shape: "nrows ?TS = N \<and> ncols ?TS = L \<and> length (cols ?TS) = L" using i by simp
  have cs: "\<forall>c \<in> set (cols ?TS). length c = N \<and> set c \<subseteq> {0, 1}"
  proof
    fix c assume "c \<in> set (cols ?TS)"
    then have "c \<in> set (cols TS) \<or> c = col"
      using set_update_subset_insert [of "cols TS" t col] by auto
    then show "length c = N \<and> set c \<subseteq> {0, 1}" using i assms(5,6) by auto
  qed
  have z: "\<forall>s. Suc t \<le> s \<and> s < L \<longrightarrow> cols ?TS ! s = replicate N 0"
    using i by simp
  have a: "\<forall>s. Suc s < Suc t \<longrightarrow> 1 \<le> sum_list (cols ?TS ! s)"
  proof (intro allI impI)
    fix s assume s: "Suc s < Suc t"
    show "1 \<le> sum_list (cols ?TS ! s)"
    proof (cases "Suc s < t")
      case True
      with i s show ?thesis by simp
    next
      case False
      with s have "s = t - 1" by simp
      with s assms(4) show ?thesis by simp
    qed
  qed
  show ?thesis unfolding ts_inv_def using shape cs z a by blast
qed

subsection \<open>The main loop\<close>

lemma ts_inv_absorbing:
  assumes "ts_inv N L t TS" and "s < s'" and "s' < L" and "sum_list (cols TS ! s) = 0"
  shows "sum_list (cols TS ! s') = 0"
proof -
  note i = assms(1) [unfolded ts_inv_def]
  have "\<not> Suc s < t"
  proof
    assume "Suc s < t"
    with i have "1 \<le> sum_list (cols TS ! s)" by blast
    with assms(4) show False by simp
  qed
  with assms(2,3) have "t \<le> s' \<and> s' < L" by simp
  with i have "cols TS ! s' = replicate N 0" by blast
  then show ?thesis by (simp add: sum_list_replicate)
qed

lemma ts_inv_shape:
  "ts_inv N L t TS \<Longrightarrow> nrows TS = N \<and> ncols TS = L \<and> length (cols TS) = L"
  by (simp add: ts_inv_def)

lemma sis_loop_stop:
  "t < L \<Longrightarrow> col_sum TS (t - 1) = Inr s \<Longrightarrow> s < 1 \<Longrightarrow>
   sis_loop beta mu L t (H, TS, g) = Inr (H, TS, g)"
  by (simp add: sis_loop.simps)

lemma sis_loop_ok:
  assumes "wf_graph H" and "clean H" and "ts_inv (length (nodes H)) L t TS" and "1 \<le> t"
  shows "\<exists>H' TS' g' t'. sis_loop beta mu L t (H, TS, g) = Inr (H', TS', g')
           \<and> nodes H' = nodes H \<and> adj H' = adj H \<and> clean H'
           \<and> ts_inv (length (nodes H)) L t' TS'
           \<and> (\<forall>s < t. cols TS' ! s = cols TS ! s)"
  using assms
proof (induction "L - t" arbitrary: t H TS g)
  case 0
  have "sis_loop beta mu L t (H, TS, g) = Inr (H, TS, g)"
    using 0(1) by (simp add: sis_loop.simps)
  with 0(3,4) have res: "sis_loop beta mu L t (H, TS, g) = Inr (H, TS, g)
           \<and> nodes H = nodes H \<and> adj H = adj H \<and> clean H
           \<and> ts_inv (length (nodes H)) L t TS
           \<and> (\<forall>s < t. cols TS ! s = cols TS ! s)"
    by simp
  show ?case
    by (rule exI [of _ H], rule exI [of _ TS], rule exI [of _ g], rule exI [of _ t], rule res)
next
  case (Suc d)
  have tL: "t < L" using Suc.hyps(2) by simp
  note i = ts_inv_shape [OF Suc.prems(3)]
  from tL i have cs: "col_sum TS (t - 1) = Inr (sum_list (cols TS ! (t - 1)))"
    by (simp add: col_sum_def)
  show ?case
  proof (cases "sum_list (cols TS ! (t - 1)) < 1")
    case True
    from sis_loop_stop [OF tL cs True]
    have "sis_loop beta mu L t (H, TS, g) = Inr (H, TS, g)" .
    with Suc.prems(2,3) have res: "sis_loop beta mu L t (H, TS, g) = Inr (H, TS, g)
           \<and> nodes H = nodes H \<and> adj H = adj H \<and> clean H
           \<and> ts_inv (length (nodes H)) L t TS
           \<and> (\<forall>s < t. cols TS ! s = cols TS ! s)"
      by simp
    show ?thesis
      by (rule exI [of _ H], rule exI [of _ TS], rule exI [of _ g], rule exI [of _ t], rule res)
  next
    case False
    have nr: "nrows TS = length (nodes H)" and nc: "t < ncols TS" using i tL by simp_all
    from sis_step_ok [OF Suc.prems(1,2) nr nc, of beta mu g] obtain H1 g1 col where
      st: "sis_step beta mu t (H, TS, g) = Inr (H1, TS\<lparr>cols := (cols TS)[t := col]\<rparr>, g1)" and
      col: "length col = length (nodes H)" "set col \<subseteq> {0, 1}" and
      f1: "nodes H1 = nodes H" "adj H1 = adj H" and c1: "clean H1"
      by blast
    let ?TS1 = "TS\<lparr>cols := (cols TS)[t := col]\<rparr>"
    have pos: "1 \<le> sum_list (cols TS ! (t - 1))" using False by simp
    have "ts_inv (length (nodes H)) L (Suc t) ?TS1"
      using Suc.prems(3) tL Suc.prems(4) pos col by (rule ts_inv_step)
    then have i1: "ts_inv (length (nodes H1)) L (Suc t) ?TS1" by (simp only: f1)
    have wf1: "wf_graph H1" using Suc.prems(1) f1 by (simp add: wf_graph_def)
    have d: "d = L - Suc t" using Suc.hyps(2) by simp
    have t1: "1 \<le> Suc t" by simp
    from Suc.hyps(1) [OF d wf1 c1 i1 t1, of g1] obtain H' TS' g' t' where
      l: "sis_loop beta mu L (Suc t) (H1, ?TS1, g1) = Inr (H', TS', g')" and
      r: "nodes H' = nodes H1" "adj H' = adj H1" "clean H'"
         "ts_inv (length (nodes H1)) L t' TS'" and
      k: "\<forall>s < Suc t. cols TS' ! s = cols ?TS1 ! s"
      by blast
    have run: "sis_loop beta mu L t (H, TS, g) = Inr (H', TS', g')"
      using tL cs False st l by (subst sis_loop.simps) simp
    have keep: "\<forall>s < t. cols TS' ! s = cols TS ! s"
      using k by simp
    have res: "sis_loop beta mu L t (H, TS, g) = Inr (H', TS', g')
           \<and> nodes H' = nodes H \<and> adj H' = adj H \<and> clean H'
           \<and> ts_inv (length (nodes H)) L t' TS'
           \<and> (\<forall>s < t. cols TS' ! s = cols TS ! s)"
      using run keep r f1 by simp
    show ?thesis
      by (rule exI [of _ H'], rule exI [of _ TS'], rule exI [of _ g'], rule exI [of _ t'], rule res)
  qed
qed

subsection \<open>A whole run\<close>

lemma sis_run_ok:
  fixes H :: graph and L num_seeds :: int
  defines "N \<equiv> length (nodes H)"
  defines "seeds \<equiv> (\<lambda>g. fst (permutation (replicate (nat num_seeds) (1::int)
                                            @ replicate (N - nat num_seeds) 0) g))"
  assumes "wf_graph H" and "0 < N" and "1 \<le> L" and "0 \<le> num_seeds" and "num_seeds \<le> int N"
  shows "\<exists>s H' TS' g' t'.
           sis_init g H L num_seeds beta mu = Inr s
           \<and> index_to_node_of s = zip [0..<N] (nodes H)
           \<and> beta_of s = default_beta H beta \<and> default_mu H mu = Inr (mu_of s)
           \<and> graph_of s = set_node_attributes_const
                              (set_node_attributes_dict H (zip (nodes H) (seeds g)) ''infected'')
                              0 ''next_infected''
           \<and> cols (ts_of s) ! 0 = seeds g
           \<and> sis_loop (beta_of s) (mu_of s) (nat L) 1 (graph_of s, ts_of s, rng_of s)
               = Inr (H', TS', g')
           \<and> nodes H' = nodes H \<and> adj H' = adj H \<and> clean H'
           \<and> ts_inv N (nat L) t' TS' \<and> cols TS' ! 0 = seeds g"
proof -
  let ?p = "permutation (replicate (nat num_seeds) (1::int) @ replicate (N - nat num_seeds) 0) g"
  let ?H0 = "set_node_attributes_const
               (set_node_attributes_dict H (zip (nodes H) (fst ?p)) ''infected'')
               0 ''next_infected''"
  let ?TS0 = "\<lparr>nrows = N, ncols = nat L,
               cols = (replicate (nat L) (replicate N 0))[0 := fst ?p]\<rparr>"
  from sis_init_ok [OF assms(4) [unfolded N_def] assms(5,6) assms(7) [unfolded N_def], of mu g beta]
  obtain mu' where m: "default_mu H mu = Inr mu'" and
    init: "sis_init g H L num_seeds beta mu =
             Inr \<lparr>graph_of = ?H0, ts_of = ?TS0, index_to_node_of = zip [0..<N] (nodes H),
                  beta_of = default_beta H beta, mu_of = mu', rng_of = snd ?p\<rparr>"
    unfolding N_def by blast
  have k: "nat num_seeds \<le> N" using assms(6,7) by simp
  note sp = seeds_props [OF k, of g]
  have c0: "clean ?H0"
    using sp(1,3) by (intro init_graph_clean) (simp_all add: N_def)
  have wf0: "wf_graph ?H0" using assms(3) by (simp add: wf_graph_def)
  have L0: "0 < nat L" using assms(5) by simp
  have cols0: "\<forall>c \<in> set (cols ?TS0). length c = N \<and> set c \<subseteq> {0, 1}"
  proof
    fix c assume "c \<in> set (cols ?TS0)"
    then have "c \<in> set (replicate (nat L) (replicate N (0::int))) \<or> c = fst ?p"
      using set_update_subset_insert [of "replicate (nat L) (replicate N (0::int))" 0 "fst ?p"]
      by auto
    then show "length c = N \<and> set c \<subseteq> {0, 1}" using sp(1,3) by auto
  qed
  have z0: "\<forall>s. 1 \<le> s \<and> s < nat L \<longrightarrow> cols ?TS0 ! s = replicate N 0"
    by simp
  have "ts_inv N (nat L) 1 ?TS0"
    unfolding ts_inv_def
  proof (intro conjI)
    show "\<forall>c \<in> set (cols ?TS0). length c = N \<and> set c \<subseteq> {0, 1}" by (rule cols0)
    show "\<forall>s. 1 \<le> s \<and> s < nat L \<longrightarrow> cols ?TS0 ! s = replicate N 0" by (rule z0)
  qed simp_all
  then have i0: "ts_inv (length (nodes ?H0)) (nat L) 1 ?TS0" by (simp add: N_def)
  have one: "(1::nat) \<le> 1" by simp
  from sis_loop_ok [OF wf0 c0 i0 one, of "default_beta H beta" mu' "snd ?p"]
  obtain H' TS' g' t' where
    l: "sis_loop (default_beta H beta) mu' (nat L) 1 (?H0, ?TS0, snd ?p) = Inr (H', TS', g')" and
    r0: "nodes H' = nodes ?H0" "adj H' = adj ?H0" "clean H'"
        "ts_inv (length (nodes ?H0)) (nat L) t' TS'" and
    keep: "\<forall>s < 1. cols TS' ! s = cols ?TS0 ! s"
    by blast
  have r: "nodes H' = nodes H" "adj H' = adj H" "ts_inv N (nat L) t' TS'"
    using r0 by (simp_all add: N_def)
  have z: "cols ?TS0 ! 0 = fst ?p" using L0 by simp
  with keep have k0: "cols TS' ! 0 = fst ?p" by simp
  let ?s = "\<lparr>graph_of = ?H0, ts_of = ?TS0, index_to_node_of = zip [0..<N] (nodes H),
             beta_of = default_beta H beta, mu_of = mu', rng_of = snd ?p\<rparr>"
  have res: "sis_init g H L num_seeds beta mu = Inr ?s
           \<and> index_to_node_of ?s = zip [0..<N] (nodes H)
           \<and> beta_of ?s = default_beta H beta \<and> default_mu H mu = Inr (mu_of ?s)
           \<and> graph_of ?s = set_node_attributes_const
                              (set_node_attributes_dict H (zip (nodes H) (seeds g)) ''infected'')
                              0 ''next_infected''
           \<and> cols (ts_of ?s) ! 0 = seeds g
           \<and> sis_loop (beta_of ?s) (mu_of ?s) (nat L) 1 (graph_of ?s, ts_of ?s, rng_of ?s)
               = Inr (H', TS', g')
           \<and> nodes H' = nodes H \<and> adj H' = adj H \<and> clean H'
           \<and> ts_inv N (nat L) t' TS' \<and> cols TS' ! 0 = seeds g"
    using init m l r r0(3) z k0 unfolding seeds_def by simp
  show ?thesis
    by (rule exI [of _ ?s], rule exI [of _ H'], rule exI [of _ TS'], rule exI [of _ g'],
        rule exI [of _ t'], rule res)
qed

subsection \<open>The call as a whole\<close>

lemma simulate_unfold:
  assumes "G < length (heap w)"
    and "sis_init g (heap w ! G) L k beta mu = Inr s"
    and "sis_loop (beta_of s) (mu_of s) (nat L) 1 (graph_of s, ts_of s, rng_of s) = Inr (H', TS', g')"
  shows "simulate g w G L k beta mu =
           (Inr (pad TS' L),
            w\<lparr>heap := heap w @ [H'],
               results := (results w)(''ground_truth'' \<mapsto> GraphRef (length (heap w)),
                                      ''TS'' \<mapsto> Array (pad TS' L),
                                      ''index_to_node'' \<mapsto> Dict (index_to_node_of s))\<rparr>)"
  using assms by (simp add: simulate_def Let_def)

lemma pad_id: "ts_inv N (nat L) t TS \<Longrightarrow> pad TS L = TS"
  using ts_inv_shape [of N "nat L" t TS] by (simp add: pad_def)

lemma simulate_frame:
  "G' < length (heap w) \<Longrightarrow> heap (snd (simulate g w G L k beta mu)) ! G' = heap w ! G'"
  by (auto simp: simulate_def Let_def nth_append split: sum.splits prod.splits)



lemma wf_graph_K2: "wf_graph K2"
  by (simp add: wf_graph_def K2_def)

lemma nodes_K2: "nodes K2 = [0, 1]"
  by (simp add: K2_def)

lemma W2_simps: "heap W2 = [K2]" "results W2 = Map.empty"
  by (simp_all add: W2_def)

lemma simulate_ok:
  assumes "valid_call w G L k"
  shows "\<exists>s H' TS g' t'.
           sis_init g (heap w ! G) L k beta mu = Inr s
           \<and> sis_loop (beta_of s) (mu_of s) (nat L) 1 (graph_of s, ts_of s, rng_of s)
               = Inr (H', TS, g')
           \<and> simulate g w G L k beta mu =
               (Inr TS,
                w\<lparr>heap := heap w @ [H'],
                   results := (results w)(''ground_truth'' \<mapsto> GraphRef (length (heap w)),
                                          ''TS'' \<mapsto> Array TS,
                                          ''index_to_node'' \<mapsto> Dict (index_to_node_of s))\<rparr>)
           \<and> ts_inv (length (nodes (heap w ! G))) (nat L) t' TS
           \<and> cols TS ! 0 = seeds_of g (length (nodes (heap w ! G))) k
           \<and> cols (ts_of s) ! 0 = seeds_of g (length (nodes (heap w ! G))) k
           \<and> graph_of s = set_node_attributes_const
                              (set_node_attributes_dict (heap w ! G)
                                 (zip (nodes (heap w ! G)) (seeds_of g (length (nodes (heap w ! G))) k))
                                 ''infected'')
                              0 ''next_infected''
           \<and> beta_of s = default_beta (heap w ! G) beta
           \<and> default_mu (heap w ! G) mu = Inr (mu_of s)"
proof -
  let ?H = "heap w ! G"
  from assms have G: "G < length (heap w)" and wf: "wf_graph ?H"
    and N: "0 < length (nodes ?H)" and L: "1 \<le> L"
    and k: "0 \<le> k" "k \<le> int (length (nodes ?H))"
    by (auto simp: valid_call_def)
  from sis_run_ok [OF wf N L k, of g beta mu] obtain s H' TS g' t' where
    i: "sis_init g ?H L k beta mu = Inr s" and
    b: "beta_of s = default_beta ?H beta" "default_mu ?H mu = Inr (mu_of s)" and
    gr: "graph_of s = set_node_attributes_const
                        (set_node_attributes_dict ?H
                           (zip (nodes ?H) (seeds_of g (length (nodes ?H)) k)) ''infected'')
                        0 ''next_infected''" and
    c0: "cols (ts_of s) ! 0 = seeds_of g (length (nodes ?H)) k" and
    l: "sis_loop (beta_of s) (mu_of s) (nat L) 1 (graph_of s, ts_of s, rng_of s) = Inr (H', TS, g')" and
    inv: "ts_inv (length (nodes ?H)) (nat L) t' TS" and
    c1: "cols TS ! 0 = seeds_of g (length (nodes ?H)) k"
    unfolding seeds_of_def by blast
  note u = simulate_unfold [OF G i l, unfolded pad_id [OF inv]]
  have res: "sis_init g ?H L k beta mu = Inr s
           \<and> sis_loop (beta_of s) (mu_of s) (nat L) 1 (graph_of s, ts_of s, rng_of s)
               = Inr (H', TS, g')
           \<and> simulate g w G L k beta mu =
               (Inr TS,
                w\<lparr>heap := heap w @ [H'],
                   results := (results w)(''ground_truth'' \<mapsto> GraphRef (length (heap w)),
                                          ''TS'' \<mapsto> Array TS,
                                          ''index_to_node'' \<mapsto> Dict (index_to_node_of s))\<rparr>)
           \<and> ts_inv (length (nodes ?H)) (nat L) t' TS
           \<and> cols TS ! 0 = seeds_of g (length (nodes ?H)) k
           \<and> cols (ts_of s) ! 0 = seeds_of g (length (nodes ?H)) k
           \<and> graph_of s = set_node_attributes_const
                              (set_node_attributes_dict ?H
                                 (zip (nodes ?H) (seeds_of g (length (nodes ?H)) k))
                                 ''infected'')
                              0 ''next_infected''
           \<and> beta_of s = default_beta ?H beta
           \<and> default_mu ?H mu = Inr (mu_of s)"
    using i l u inv c1 c0 gr b by simp
  show ?thesis
    by (rule exI [of _ s], rule exI [of _ H'], rule exI [of _ TS], rule exI [of _ g'],
        rule exI [of _ t'], rule res)
qed

lemma valid_call_W2: "valid_call W2 0 2 1"
  by (simp add: valid_call_def W2_def wf_graph_def K2_def)

lemma ts_inv_cols:
  "ts_inv N L t TS \<Longrightarrow> c \<in> set (cols TS) \<Longrightarrow> length c = N \<and> set c \<subseteq> {0, 1}"
  by (simp add: ts_inv_def)

lemma ts_inv_zero_after:
  assumes "ts_inv N L t TS" and "s < s'" and "s' < L" and "sum_list (cols TS ! s) = 0"
  shows "cols TS ! s' = replicate N 0"
proof -
  have "\<not> Suc s < t"
  proof
    assume "Suc s < t"
    with assms(1) have "1 \<le> sum_list (cols TS ! s)" unfolding ts_inv_def by blast
    with assms(4) show False by simp
  qed
  with assms(2,3) have "t \<le> s' \<and> s' < L" by simp
  with assms(1) show ?thesis unfolding ts_inv_def by blast
qed

lemma sis_init_shape:
  "sis_init g H L k beta mu = Inr s \<Longrightarrow>
   nrows (ts_of s) = length (nodes H) \<and> ncols (ts_of s) = nat L"
  by (auto simp: sis_init_def np_zeros_def set_col_def number_of_nodes_def Let_def
        split: sum.splits prod.splits if_splits list.splits)


lemma simulate_okE:
  assumes "valid_call w G L k"
  obtains s H' TS g' t' where
    "sis_init g (heap w ! G) L k beta mu = Inr s"
    "sis_loop (beta_of s) (mu_of s) (nat L) 1 (graph_of s, ts_of s, rng_of s) = Inr (H', TS, g')"
    "simulate g w G L k beta mu =
       (Inr TS,
        w\<lparr>heap := heap w @ [H'],
           results := (results w)(''ground_truth'' \<mapsto> GraphRef (length (heap w)),
                                  ''TS'' \<mapsto> Array TS,
                                  ''index_to_node'' \<mapsto> Dict (index_to_node_of s))\<rparr>)"
    "ts_inv (length (nodes (heap w ! G))) (nat L) t' TS"
    "cols TS ! 0 = seeds_of g (length (nodes (heap w ! G))) k"
    "cols (ts_of s) ! 0 = seeds_of g (length (nodes (heap w ! G))) k"
    "graph_of s = set_node_attributes_const
                    (set_node_attributes_dict (heap w ! G)
                       (zip (nodes (heap w ! G)) (seeds_of g (length (nodes (heap w ! G))) k))
                       ''infected'')
                    0 ''next_infected''"
    "beta_of s = default_beta (heap w ! G) beta"
    "default_mu (heap w ! G) mu = Inr (mu_of s)"
  using simulate_ok [OF assms, of g beta mu]
  by (elim exE conjE) (rule that, assumption+)

lemma simulate_tsE:
  assumes "valid_call w G L k"
  obtains TS t' where
    "fst (simulate g w G L k beta mu) = Inr TS"
    "ts_inv (length (nodes (heap w ! G))) (nat L) t' TS"
    "cols TS ! 0 = seeds_of g (length (nodes (heap w ! G))) k"
proof (rule simulate_okE [OF assms, of g beta mu])
  fix s H' TS g' t'
  assume "simulate g w G L k beta mu =
       (Inr TS,
        w\<lparr>heap := heap w @ [H'],
           results := (results w)(''ground_truth'' \<mapsto> GraphRef (length (heap w)),
                                  ''TS'' \<mapsto> Array TS,
                                  ''index_to_node'' \<mapsto> Dict (index_to_node_of s))\<rparr>)"
    and i: "ts_inv (length (nodes (heap w ! G))) (nat L) t' TS"
    and c: "cols TS ! 0 = seeds_of g (length (nodes (heap w ! G))) k"
  then have "fst (simulate g w G L k beta mu) = Inr TS" by simp
  then show thesis using i c by (rule that)
qed

section \<open>The claims\<close>

text \<open>
  C3. For every valid input (a graph with N >= 1 nodes, L >= 1, num_seeds in [0, N]) and
  any rates, \<open>simulate\<close> returns a time series, and it has exactly N rows and exactly L
  columns, each column with N entries, whatever the random source does and whether or
  not the loop breaks early.
\<close>

theorem simulate_shape:
  assumes "valid_call w G L k"
  shows "\<exists>TS. fst (simulate g w G L k beta mu) = Inr TS
           \<and> nrows TS = length (nodes (heap w ! G)) \<and> int (ncols TS) = L
           \<and> length (cols TS) = ncols TS
           \<and> (\<forall>c \<in> set (cols TS). length c = nrows TS)"
proof -
  from assms obtain TS t' where
    r: "fst (simulate g w G L k beta mu) = Inr TS" and
    inv: "ts_inv (length (nodes (heap w ! G))) (nat L) t' TS"
    by (rule simulate_tsE [of w G L k g beta mu])
  from assms have L: "1 \<le> L" by (simp add: valid_call_def)
  note sh = ts_inv_shape [OF inv]
  have "\<forall>c \<in> set (cols TS). length c = nrows TS"
  proof
    fix c assume "c \<in> set (cols TS)"
    from ts_inv_cols [OF inv this] have "length c = length (nodes (heap w ! G))" by (rule conjunct1)
    with sh show "length c = nrows TS" by simp
  qed
  moreover have "int (ncols TS) = L" "length (cols TS) = ncols TS"
    "nrows TS = length (nodes (heap w ! G))"
    using sh L by simp_all
  ultimately have "fst (simulate g w G L k beta mu) = Inr TS
           \<and> nrows TS = length (nodes (heap w ! G)) \<and> int (ncols TS) = L
           \<and> length (cols TS) = ncols TS
           \<and> (\<forall>c \<in> set (cols TS). length c = nrows TS)"
    using r by (intro conjI)
  then show ?thesis by (rule exI)
qed

theorem simulate_shape_witness:
  "valid_call W2 0 2 1
   \<and> (\<exists>TS. fst (simulate rng_zero W2 0 2 1 None None) = Inr TS
          \<and> nrows TS = 2 \<and> ncols TS = 2 \<and> length (cols TS) = 2
          \<and> (\<forall>c \<in> set (cols TS). length c = 2))"
proof -
  have n: "length (nodes (heap W2 ! 0)) = 2" by (simp add: W2_simps nodes_K2)
  from simulate_shape [OF valid_call_W2, of rng_zero None None] obtain TS where
    t: "fst (simulate rng_zero W2 0 2 1 None None) = Inr TS"
       "nrows TS = length (nodes (heap W2 ! 0))" "int (ncols TS) = 2"
       "length (cols TS) = ncols TS" "\<forall>c \<in> set (cols TS). length c = nrows TS"
    by blast
  from t(2,3,4) n have s: "nrows TS = 2" "ncols TS = 2" "length (cols TS) = 2" by simp_all
  from t(5) s(1) have "\<forall>c \<in> set (cols TS). length c = 2" by simp
  with t(1) s have "fst (simulate rng_zero W2 0 2 1 None None) = Inr TS
          \<and> nrows TS = 2 \<and> ncols TS = 2 \<and> length (cols TS) = 2
          \<and> (\<forall>c \<in> set (cols TS). length c = 2)"
    by (intro conjI)
  then have "\<exists>TS. fst (simulate rng_zero W2 0 2 1 None None) = Inr TS
          \<and> nrows TS = 2 \<and> ncols TS = 2 \<and> length (cols TS) = 2
          \<and> (\<forall>c \<in> set (cols TS). length c = 2)"
    by (rule exI)
  with valid_call_W2 show ?thesis by (rule conjI)
qed

text \<open>
  C6. For every valid input and every outcome of the random draws, every entry of the
  returned time series is 0 or 1.
\<close>

theorem simulate_binary:
  assumes "valid_call w G L k"
  shows "\<exists>TS. fst (simulate g w G L k beta mu) = Inr TS
           \<and> (\<forall>c \<in> set (cols TS). \<forall>x \<in> set c. x = 0 \<or> x = 1)"
proof -
  from assms obtain TS t' where
    r: "fst (simulate g w G L k beta mu) = Inr TS" and
    inv: "ts_inv (length (nodes (heap w ! G))) (nat L) t' TS"
    by (rule simulate_tsE [of w G L k g beta mu])
  have "\<forall>c \<in> set (cols TS). \<forall>x \<in> set c. x = 0 \<or> x = 1"
  proof (intro ballI)
    fix c x assume "c \<in> set (cols TS)" and x: "x \<in> set c"
    from ts_inv_cols [OF inv this(1)] have "set c \<subseteq> {0, 1}" by (rule conjunct2)
    with x show "x = 0 \<or> x = 1" by blast
  qed
  with r have "fst (simulate g w G L k beta mu) = Inr TS
           \<and> (\<forall>c \<in> set (cols TS). \<forall>x \<in> set c. x = 0 \<or> x = 1)"
    by (rule conjI)
  then show ?thesis by (rule exI)
qed

theorem simulate_binary_witness:
  "valid_call W2 0 2 1
   \<and> (\<exists>TS. fst (simulate rng_half W2 0 2 1 None None) = Inr TS
          \<and> (\<forall>c \<in> set (cols TS). \<forall>x \<in> set c. x = 0 \<or> x = 1))"
  using simulate_binary [OF valid_call_W2, of rng_half None None] valid_call_W2
  by blast

text \<open>
  C5. Extinction is absorbing: in the time series returned for a valid input, if a column
  sums to 0 then every later column is still the zero column of the allocation, so it sums
  to 0 and has no nonzero entry. And the loop stops entirely at an iteration that finds
  the sum of the previous column below 1: it returns its state unchanged.
\<close>

theorem extinction_absorbing:
  assumes "valid_call w G L k"
  shows "(\<exists>TS. fst (simulate g w G L k beta mu) = Inr TS
            \<and> (\<forall>s s'. s < s' \<and> s' < ncols TS \<and> sum_list (cols TS ! s) = 0
                  \<longrightarrow> sum_list (cols TS ! s') = 0
                      \<and> cols TS ! s' = replicate (nrows TS) 0))
         \<and> (\<forall>b m t H TS g' c. t < nat L \<and> col_sum TS (t - 1) = Inr c \<and> c < 1
               \<longrightarrow> sis_loop b m (nat L) t (H, TS, g') = Inr (H, TS, g'))"
proof (intro conjI allI impI)
  from assms obtain TS t' where
    r: "fst (simulate g w G L k beta mu) = Inr TS" and
    inv: "ts_inv (length (nodes (heap w ! G))) (nat L) t' TS"
    by (rule simulate_tsE [of w G L k g beta mu])
  note sh = ts_inv_shape [OF inv]
  have "\<forall>s s'. s < s' \<and> s' < ncols TS \<and> sum_list (cols TS ! s) = 0
          \<longrightarrow> sum_list (cols TS ! s') = 0 \<and> cols TS ! s' = replicate (nrows TS) 0"
  proof (intro allI impI)
    fix s s'
    assume a: "s < s' \<and> s' < ncols TS \<and> sum_list (cols TS ! s) = 0"
    then have "s < s'" "s' < nat L" "sum_list (cols TS ! s) = 0"
      using sh by simp_all
    from ts_inv_zero_after [OF inv this]
    have "cols TS ! s' = replicate (length (nodes (heap w ! G))) 0" .
    then show "sum_list (cols TS ! s') = 0 \<and> cols TS ! s' = replicate (nrows TS) 0"
      using sh by (simp add: sum_list_replicate)
  qed
  with r have "fst (simulate g w G L k beta mu) = Inr TS
            \<and> (\<forall>s s'. s < s' \<and> s' < ncols TS \<and> sum_list (cols TS ! s) = 0
                  \<longrightarrow> sum_list (cols TS ! s') = 0
                      \<and> cols TS ! s' = replicate (nrows TS) 0)"
    by (rule conjI)
  then show "\<exists>TS. fst (simulate g w G L k beta mu) = Inr TS
            \<and> (\<forall>s s'. s < s' \<and> s' < ncols TS \<and> sum_list (cols TS ! s) = 0
                  \<longrightarrow> sum_list (cols TS ! s') = 0
                      \<and> cols TS ! s' = replicate (nrows TS) 0)"
    by (rule exI)
next
  fix b m t H TS g' c
  assume "t < nat L \<and> col_sum TS (t - 1) = Inr c \<and> c < 1"
  then show "sis_loop b m (nat L) t (H, TS, g') = Inr (H, TS, g')"
    using sis_loop_stop [of t "nat L" TS c b m H g'] by simp
qed

theorem extinction_absorbing_witness:
  "valid_call W2 0 2 0
   \<and> (\<exists>TS. fst (simulate rng_zero W2 0 2 0 None None) = Inr TS
          \<and> (\<forall>s s'. s < s' \<and> s' < ncols TS \<and> sum_list (cols TS ! s) = 0
                \<longrightarrow> sum_list (cols TS ! s') = 0
                    \<and> cols TS ! s' = replicate (nrows TS) 0))"
proof -
  have v: "valid_call W2 0 2 0"
    by (simp add: valid_call_def W2_def wf_graph_def K2_def)
  from extinction_absorbing [OF v, of rng_zero None None] v show ?thesis by blast
qed

text \<open>
  C10. The padding after the loop is unreachable: for every valid input the loop returns
  a time series that still has the L columns (and the N rows) allocated at line 53, so
  the test of line 106 is false, \<open>pad\<close> returns its argument, and the matrix returned by
  \<open>simulate\<close> is the one the loop worked on.
\<close>

theorem padding_unreachable:
  assumes "valid_call w G L k"
  shows "\<exists>s H' TS g'.
           sis_init g (heap w ! G) L k beta mu = Inr s
           \<and> sis_loop (beta_of s) (mu_of s) (nat L) 1 (graph_of s, ts_of s, rng_of s)
               = Inr (H', TS, g')
           \<and> ncols TS = ncols (ts_of s) \<and> nrows TS = nrows (ts_of s)
           \<and> \<not> int (ncols TS) < L \<and> pad TS L = TS
           \<and> fst (simulate g w G L k beta mu) = Inr TS"
proof -
  from assms obtain s H' TS g' w' t' where
    i: "sis_init g (heap w ! G) L k beta mu = Inr s" and
    l: "sis_loop (beta_of s) (mu_of s) (nat L) 1 (graph_of s, ts_of s, rng_of s)
          = Inr (H', TS, g')" and
    r: "simulate g w G L k beta mu = (Inr TS, w')" and
    inv: "ts_inv (length (nodes (heap w ! G))) (nat L) t' TS"
    by (rule simulate_okE [of w G L k g beta mu])
  from assms have L: "1 \<le> L" by (simp add: valid_call_def)
  note sh = ts_inv_shape [OF inv]
  note sh0 = sis_init_shape [OF i]
  have res: "sis_init g (heap w ! G) L k beta mu = Inr s
           \<and> sis_loop (beta_of s) (mu_of s) (nat L) 1 (graph_of s, ts_of s, rng_of s)
               = Inr (H', TS, g')
           \<and> ncols TS = ncols (ts_of s) \<and> nrows TS = nrows (ts_of s)
           \<and> \<not> int (ncols TS) < L \<and> pad TS L = TS
           \<and> fst (simulate g w G L k beta mu) = Inr TS"
    using i l r sh sh0 L pad_id [OF inv] by simp
  show ?thesis
    by (rule exI [of _ s], rule exI [of _ H'], rule exI [of _ TS], rule exI [of _ g'], rule res)
qed

theorem padding_unreachable_witness:
  "valid_call W2 0 2 1
   \<and> (\<exists>s H' TS g'.
           sis_init rng_zero (heap W2 ! 0) 2 1 None None = Inr s
           \<and> sis_loop (beta_of s) (mu_of s) (nat 2) 1 (graph_of s, ts_of s, rng_of s)
               = Inr (H', TS, g')
           \<and> \<not> int (ncols TS) < 2 \<and> pad TS 2 = TS
           \<and> fst (simulate rng_zero W2 0 2 1 None None) = Inr TS)"
proof -
  from padding_unreachable [OF valid_call_W2, of rng_zero None None]
  obtain s H' TS g' where
    "sis_init rng_zero (heap W2 ! 0) 2 1 None None = Inr s
       \<and> sis_loop (beta_of s) (mu_of s) (nat 2) 1 (graph_of s, ts_of s, rng_of s)
           = Inr (H', TS, g')
       \<and> \<not> int (ncols TS) < 2 \<and> pad TS 2 = TS
       \<and> fst (simulate rng_zero W2 0 2 1 None None) = Inr TS"
    by blast
  then have "\<exists>s H' TS g'.
           sis_init rng_zero (heap W2 ! 0) 2 1 None None = Inr s
           \<and> sis_loop (beta_of s) (mu_of s) (nat 2) 1 (graph_of s, ts_of s, rng_of s)
               = Inr (H', TS, g')
           \<and> \<not> int (ncols TS) < 2 \<and> pad TS 2 = TS
           \<and> fst (simulate rng_zero W2 0 2 1 None None) = Inr TS"
    by (intro exI)
  with valid_call_W2 show ?thesis by (rule conjI)
qed

lemma seeds_of_props:
  assumes "0 \<le> k" and "k \<le> int N"
  shows "length (seeds_of g N k) = N" and "sum_list (seeds_of g N k) = k"
    and "set (seeds_of g N k) \<subseteq> {0, 1}"
    and "mset (seeds_of g N k) = replicate_mset (nat k) 1 + replicate_mset (N - nat k) 0"
proof -
  have n: "nat k \<le> N" using assms by simp
  show "length (seeds_of g N k) = N"
    using seeds_props(1) [OF n, of g] by (simp add: seeds_of_def)
  show "sum_list (seeds_of g N k) = k"
    using seeds_props(2) [OF n, of g] assms(1) by (simp add: seeds_of_def)
  show "set (seeds_of g N k) \<subseteq> {0, 1}"
    using seeds_props(3) [OF n, of g] by (simp add: seeds_of_def)
  show "mset (seeds_of g N k) = replicate_mset (nat k) 1 + replicate_mset (N - nat k) 0"
    using seeds_props(4) [OF n, of g] by (simp add: seeds_of_def)
qed

lemma count_ones:
  assumes "mset (xs :: int list) = replicate_mset a 1 + replicate_mset b 0"
  shows "length (filter (\<lambda>x. x = 1) xs) = a"
proof -
  have "length (filter (\<lambda>x. x = 1) xs) = count (mset xs) 1"
    by (induction xs) simp_all
  also have "\<dots> = a" by (simp add: assms)
  finally show ?thesis .
qed

lemma count_infected:
  assumes "length ns = length xs"
    and "\<forall>i < length ns. f (ns ! i) = Some (xs ! i)"
  shows "length (filter (\<lambda>n. f n = Some (1::int)) ns) = length (filter (\<lambda>x. x = 1) xs)"
proof -
  have m: "map f ns = map Some xs"
    using assms by (intro nth_equalityI) simp_all
  have "length (filter (\<lambda>n. f n = Some 1) ns) = length (filter (\<lambda>v. v = Some 1) (map f ns))"
    by (simp add: filter_map comp_def)
  also have "\<dots> = length (filter (\<lambda>v. v = Some 1) (map Some xs))" by (simp only: m)
  also have "\<dots> = length (filter (\<lambda>x. x = 1) xs)"
    by (simp add: filter_map comp_def)
  finally show ?thesis .
qed

text \<open>
  C4. For every valid input, column 0 of the returned time series is the vector of seeds:
  a random permutation of num_seeds ones and N - num_seeds zeros, so it sums to num_seeds.
  The same vector is column 0 of the time series when the loop starts and is the
  \<open>infected\<close> attribute of the working graph, node by node in index order, so exactly
  num_seeds nodes are infected at t = 0.
\<close>

theorem seeds_at_time_zero:
  assumes "valid_call w G L k"
  shows "\<exists>TS s. fst (simulate g w G L k beta mu) = Inr TS
           \<and> sis_init g (heap w ! G) L k beta mu = Inr s
           \<and> cols TS ! 0 = seeds_of g (length (nodes (heap w ! G))) k
           \<and> mset (cols TS ! 0)
               = replicate_mset (nat k) 1
                 + replicate_mset (length (nodes (heap w ! G)) - nat k) 0
           \<and> sum_list (cols TS ! 0) = k
           \<and> cols (ts_of s) ! 0 = cols TS ! 0
           \<and> (\<forall>i < length (nodes (heap w ! G)).
                 attrs (graph_of s) (nodes (heap w ! G) ! i) ''infected''
                   = Some (cols TS ! 0 ! i))
           \<and> length (filter (\<lambda>n. attrs (graph_of s) n ''infected'' = Some 1)
                        (nodes (heap w ! G))) = nat k"
proof -
  let ?H = "heap w ! G"
  let ?N = "length (nodes ?H)"
  let ?seeds = "seeds_of g ?N k"
  from assms have k: "0 \<le> k" "k \<le> int ?N" and d: "distinct (nodes ?H)"
    by (simp_all add: valid_call_def wf_graph_def)
  from assms obtain s H' TS g' t' where
    i: "sis_init g ?H L k beta mu = Inr s" and
    r: "simulate g w G L k beta mu =
          (Inr TS,
           w\<lparr>heap := heap w @ [H'],
              results := (results w)(''ground_truth'' \<mapsto> GraphRef (length (heap w)),
                                     ''TS'' \<mapsto> Array TS,
                                     ''index_to_node'' \<mapsto> Dict (index_to_node_of s))\<rparr>)" and
    c: "cols TS ! 0 = ?seeds" and c0: "cols (ts_of s) ! 0 = ?seeds" and
    gr: "graph_of s = set_node_attributes_const
                        (set_node_attributes_dict ?H (zip (nodes ?H) ?seeds) ''infected'')
                        0 ''next_infected''"
    by (rule simulate_okE [of w G L k g beta mu])
  note sp = seeds_of_props [OF k, of g]
  have a: "\<forall>i < ?N. attrs (graph_of s) (nodes ?H ! i) ''infected'' = Some (?seeds ! i)"
    unfolding gr using init_graph_infected [OF sp(1) d] by blast
  have cnt: "length (filter (\<lambda>n. attrs (graph_of s) n ''infected'' = Some 1) (nodes ?H)) = nat k"
    using count_infected [of "nodes ?H" ?seeds "\<lambda>n. attrs (graph_of s) n ''infected''"]
      sp(1) a count_ones [OF sp(4)] by simp
  have f: "fst (simulate g w G L k beta mu) = Inr TS" using r by simp
  have res: "fst (simulate g w G L k beta mu) = Inr TS
           \<and> sis_init g ?H L k beta mu = Inr s
           \<and> cols TS ! 0 = ?seeds
           \<and> mset (cols TS ! 0) = replicate_mset (nat k) 1 + replicate_mset (?N - nat k) 0
           \<and> sum_list (cols TS ! 0) = k
           \<and> cols (ts_of s) ! 0 = cols TS ! 0
           \<and> (\<forall>i < ?N. attrs (graph_of s) (nodes ?H ! i) ''infected'' = Some (cols TS ! 0 ! i))
           \<and> length (filter (\<lambda>n. attrs (graph_of s) n ''infected'' = Some 1) (nodes ?H)) = nat k"
    unfolding c using f i sp(2,4) c0 a cnt by (intro conjI refl)
  show ?thesis
    by (rule exI [of _ TS], rule exI [of _ s], rule res)
qed

theorem seeds_at_time_zero_witness:
  "valid_call W2 0 2 1
   \<and> (\<exists>TS s. fst (simulate rng_half W2 0 2 1 None None) = Inr TS
          \<and> sis_init rng_half (heap W2 ! 0) 2 1 None None = Inr s
          \<and> sum_list (cols TS ! 0) = 1
          \<and> cols (ts_of s) ! 0 = cols TS ! 0
          \<and> length (filter (\<lambda>n. attrs (graph_of s) n ''infected'' = Some 1)
                       (nodes (heap W2 ! 0))) = nat 1)"
proof -
  from seeds_at_time_zero [OF valid_call_W2, of rng_half None None] obtain TS s where
    "fst (simulate rng_half W2 0 2 1 None None) = Inr TS
          \<and> sis_init rng_half (heap W2 ! 0) 2 1 None None = Inr s
          \<and> sum_list (cols TS ! 0) = 1
          \<and> cols (ts_of s) ! 0 = cols TS ! 0
          \<and> length (filter (\<lambda>n. attrs (graph_of s) n ''infected'' = Some 1)
                       (nodes (heap W2 ! 0))) = nat 1"
    by blast
  then have "\<exists>TS s. fst (simulate rng_half W2 0 2 1 None None) = Inr TS
          \<and> sis_init rng_half (heap W2 ! 0) 2 1 None None = Inr s
          \<and> sum_list (cols TS ! 0) = 1
          \<and> cols (ts_of s) ! 0 = cols TS ! 0
          \<and> length (filter (\<lambda>n. attrs (graph_of s) n ''infected'' = Some 1)
                       (nodes (heap W2 ! 0))) = nat 1"
    by (intro exI)
  with valid_call_W2 show ?thesis by (rule conjI)
qed

lemma simulate_success_ground_truth:
  "fst (simulate g w G L k beta mu) = Inr TS \<Longrightarrow>
   results (snd (simulate g w G L k beta mu)) ''ground_truth'' = Some (GraphRef (length (heap w)))"
  by (auto simp: simulate_def Let_def split: sum.splits prod.splits if_splits)

text \<open>
  C7. \<open>simulate\<close> never mutates a graph the caller holds, in particular not its input
  graph: whatever the arguments, and whether the call returns or raises, every graph
  that was in the store before the call is the same graph after it, with the same nodes,
  edges and node attributes. The graph the simulation worked on is a new object: on
  success \<open>self.results['ground_truth']\<close> refers to an address that did not exist before.
\<close>

theorem simulate_keeps_input_graph:
  assumes "G' < length (heap w)"
  shows "heap (snd (simulate g w G L k beta mu)) ! G' = heap w ! G'
         \<and> nodes (heap (snd (simulate g w G L k beta mu)) ! G') = nodes (heap w ! G')
         \<and> adj (heap (snd (simulate g w G L k beta mu)) ! G') = adj (heap w ! G')
         \<and> attrs (heap (snd (simulate g w G L k beta mu)) ! G') = attrs (heap w ! G')
         \<and> (\<forall>TS. fst (simulate g w G L k beta mu) = Inr TS \<longrightarrow>
               results (snd (simulate g w G L k beta mu)) ''ground_truth''
                 = Some (GraphRef (length (heap w)))
               \<and> G' \<noteq> length (heap w))"
  using simulate_frame [OF assms, of g G L k beta mu] assms
    simulate_success_ground_truth [of g w G L k beta mu]
  by simp

theorem simulate_keeps_input_graph_witness:
  "0 < length (heap W2)
   \<and> heap (snd (simulate rng_half W2 0 2 1 None None)) ! 0 = K2
   \<and> attrs (heap (snd (simulate rng_half W2 0 2 1 None None)) ! 0) = attrs K2"
proof -
  have h: "0 < length (heap W2)" by (simp add: W2_simps)
  from simulate_keeps_input_graph [OF h, of rng_half 0 2 1 None None] h
  show ?thesis by (simp add: W2_simps)
qed

lemma default_beta_nonzero:
  "np_recip (np_mean ds) \<noteq> Fin 0"
  by (simp add: np_mean_def)

text \<open>
  C9. A rate supplied as exactly 0.0 is treated as omitted: \<open>beta = 0.0\<close> is replaced by
  1 / average degree and \<open>mu = 0.0\<close> by 1 / N (when the graph has a node), the call
  behaves exactly as if the rate had not been given, and the rate that is used is
  never zero.
\<close>

theorem zero_rates_are_replaced:
  "default_beta H (Some (Fin 0)) = np_recip (np_mean (map (degree H) (nodes H)))
   \<and> default_beta H (Some (Fin 0)) = default_beta H None
   \<and> default_mu H (Some (Fin 0)) = default_mu H None
   \<and> (0 < number_of_nodes H \<longrightarrow>
        default_mu H (Some (Fin 0)) = Inr (Fin (1 / real (number_of_nodes H))))
   \<and> default_beta H (Some (Fin 0)) \<noteq> Fin 0
   \<and> default_mu H (Some (Fin 0)) \<noteq> Inr (Fin 0)
   \<and> simulate g w G L k (Some (Fin 0)) mu = simulate g w G L k None mu
   \<and> simulate g w G L k beta (Some (Fin 0)) = simulate g w G L k beta None"
proof -
  have b: "\<And>H. default_beta H (Some (Fin 0)) = default_beta H None"
    by (simp add: default_beta_def)
  have m: "\<And>H. default_mu H (Some (Fin 0)) = default_mu H None"
    by (simp add: default_mu_def)
  have ib: "\<And>H. sis_init g H L k (Some (Fin 0)) mu = sis_init g H L k None mu"
    unfolding sis_init_def b by (rule refl)
  have im: "\<And>H. sis_init g H L k beta (Some (Fin 0)) = sis_init g H L k beta None"
    unfolding sis_init_def m by (rule refl)
  have "default_beta H (Some (Fin 0)) = np_recip (np_mean (map (degree H) (nodes H)))"
    by (simp add: default_beta_def)
  moreover have "0 < number_of_nodes H \<longrightarrow>
        default_mu H (Some (Fin 0)) = Inr (Fin (1 / real (number_of_nodes H)))"
    by (simp add: default_mu_def)
  moreover have "default_beta H (Some (Fin 0)) \<noteq> Fin 0"
    using default_beta_nonzero by (simp add: default_beta_def)
  moreover have "default_mu H (Some (Fin 0)) \<noteq> Inr (Fin 0)"
    by (simp add: default_mu_def)
  moreover have "simulate g w G L k (Some (Fin 0)) mu = simulate g w G L k None mu"
    unfolding simulate_def ib by (rule refl)
  moreover have "simulate g w G L k beta (Some (Fin 0)) = simulate g w G L k beta None"
    unfolding simulate_def im by (rule refl)
  ultimately show ?thesis using b m by (intro conjI)
qed

theorem zero_rates_are_replaced_witness:
  "0 < number_of_nodes K2
   \<and> default_beta K2 (Some (Fin 0)) = Fin 1
   \<and> default_mu K2 (Some (Fin 0)) = Inr (Fin (1 / 2))
   \<and> simulate rng_half W2 0 2 1 (Some (Fin 0)) (Some (Fin 0))
       = simulate rng_half W2 0 2 1 None (Some (Fin 0))"
proof -
  have nn: "number_of_nodes K2 = 2" by (simp add: number_of_nodes_def K2_def)
  then have n: "0 < number_of_nodes K2" by simp
  have d: "np_recip (np_mean (map (degree K2) (nodes K2))) = Fin 1"
    by (simp add: np_mean_def degree_def K2_def)
  note z = zero_rates_are_replaced [of K2 rng_half W2 0 2 1 "Some (Fin 0)" None]
  from z d have b: "default_beta K2 (Some (Fin 0)) = Fin 1" by simp
  from z n have "default_mu K2 (Some (Fin 0)) = Inr (Fin (1 / real (number_of_nodes K2)))"
    by blast
  then have m: "default_mu K2 (Some (Fin 0)) = Inr (Fin (1 / 2))" by (simp add: nn)
  from z have e: "simulate rng_half W2 0 2 1 (Some (Fin 0)) (Some (Fin 0))
       = simulate rng_half W2 0 2 1 None (Some (Fin 0))" by blast
  from n b m e show ?thesis by (intro conjI)
qed




subsection \<open>The pass in its two stages\<close>

lemma commit_flags:
  assumes "ready H1"
  shows "flag (set_node_attributes_const
                 (set_node_attributes_dict H1 (get_node_attributes H1 ''next_infected'') ''infected'')
                 0 ''next_infected'') ''infected'' = flag H1 ''next_infected''"
    and "flag (set_node_attributes_const
                 (set_node_attributes_dict H1 (get_node_attributes H1 ''next_infected'') ''infected'')
                 0 ''next_infected'') ''next_infected'' = (\<lambda>n. False)"
  by (auto simp: flag_def commit_attrs [OF assms] fun_eq_iff)

lemma visit_nodes_total_refines:
  assumes "wf_graph H" and "ready H" and "set order \<subseteq> set (nodes H)"
  shows "\<exists>H1 g1. visit_nodes beta mu order (H, g) = Inr (H1, g1)
           \<and> spec_visit beta mu (adj H) order (flag H ''infected'', flag H ''next_infected'', g)
               = (flag H1 ''infected'', flag H1 ''next_infected'', g1)
           \<and> (\<forall>n. flag H ''next_infected'' n \<longrightarrow> flag H1 ''next_infected'' n)"
proof -
  from visit_nodes_ok [OF assms, of beta mu g] obtain H1 g1 where
    v: "visit_nodes beta mu order (H, g) = Inr (H1, g1)" by blast
  have m: "\<forall>n. flag H ''next_infected'' n \<longrightarrow> flag H1 ''next_infected'' n"
  proof (intro allI impI)
    fix n assume "flag H ''next_infected'' n"
    with visit_nodes_next [OF v, of n] visit_nodes_nodes [OF v]
    show "flag H1 ''next_infected'' n" by (auto simp: flag_def)
  qed
  have "visit_nodes beta mu order (H, g) = Inr (H1, g1)
           \<and> spec_visit beta mu (adj H) order (flag H ''infected'', flag H ''next_infected'', g)
               = (flag H1 ''infected'', flag H1 ''next_infected'', g1)
           \<and> (\<forall>n. flag H ''next_infected'' n \<longrightarrow> flag H1 ''next_infected'' n)"
    using v visit_nodes_refines [OF v] m by (intro conjI)
  then show ?thesis by (intro exI)
qed

lemma sis_pass_stages:
  assumes "wf_graph H" and "ready H"
  shows "\<exists>H1 H' g'.
           visit_nodes beta mu (fst (permutation (nodes H) g))
             (H, snd (permutation (nodes H) g)) = Inr (H1, g')
           \<and> spec_visit beta mu (adj H) (fst (permutation (nodes H) g))
                 (flag H ''infected'', flag H ''next_infected'', snd (permutation (nodes H) g))
               = (flag H1 ''infected'', flag H1 ''next_infected'', g')
           \<and> sis_pass beta mu (H, g) = Inr (H', g')
           \<and> flag H' ''infected'' = flag H1 ''next_infected''
           \<and> flag H' ''next_infected'' = (\<lambda>n. False)
           \<and> spec_pass beta mu (nodes H) (adj H)
                 (flag H ''infected'', flag H ''next_infected'', g)
               = (flag H' ''infected'', flag H' ''next_infected'', g')"
proof -
  from sis_pass_char [OF assms, of beta mu g] obtain H1 g' where
    v: "visit_nodes beta mu (fst (permutation (nodes H) g))
          (H, snd (permutation (nodes H) g)) = Inr (H1, g')" and
    s: "sis_pass beta mu (H, g)
          = Inr (set_node_attributes_const
                   (set_node_attributes_dict H1 (get_node_attributes H1 ''next_infected'')
                      ''infected'')
                   0 ''next_infected'', g')"
    by blast
  let ?H' = "set_node_attributes_const
               (set_node_attributes_dict H1 (get_node_attributes H1 ''next_infected'') ''infected'')
               0 ''next_infected''"
  have r1: "ready H1" using visit_nodes_ready [OF v assms(2)] .
  note fl = commit_flags [OF r1]
  note rv = visit_nodes_refines [OF v]
  have sp: "spec_pass beta mu (nodes H) (adj H)
              (flag H ''infected'', flag H ''next_infected'', g)
            = (flag H1 ''next_infected'', (\<lambda>n. False), g')"
    using rv by (cases "permutation (nodes H) g") (simp add: spec_pass_def)
  have "visit_nodes beta mu (fst (permutation (nodes H) g))
             (H, snd (permutation (nodes H) g)) = Inr (H1, g')
           \<and> spec_visit beta mu (adj H) (fst (permutation (nodes H) g))
                 (flag H ''infected'', flag H ''next_infected'', snd (permutation (nodes H) g))
               = (flag H1 ''infected'', flag H1 ''next_infected'', g')
           \<and> sis_pass beta mu (H, g) = Inr (?H', g')
           \<and> flag ?H' ''infected'' = flag H1 ''next_infected''
           \<and> flag ?H' ''next_infected'' = (\<lambda>n. False)
           \<and> spec_pass beta mu (nodes H) (adj H)
                 (flag H ''infected'', flag H ''next_infected'', g)
               = (flag ?H' ''infected'', flag ?H' ''next_infected'', g')"
    unfolding fl using v rv s sp by (intro conjI refl)
  then show ?thesis
    by (intro exI)
qed

lemma bernoulli_trial:
  "0 \<le> fst (random_sample g) \<and> fst (random_sample g) < 1
   \<and> (\<forall>p. lt (fst (random_sample g)) (Fin p) \<longleftrightarrow> fst (random_sample g) < p)
   \<and> lt (fst (random_sample g)) (Fin 1) \<and> \<not> lt (fst (random_sample g)) (Fin 0)"
  using random_sample_range [of g] by simp

lemma random_sample_rng_zero: "random_sample rng_zero = (0, rng_zero)"
  by (simp add: random_sample_def next_word_def rng_zero_def)

lemma flag_K2_running:
  "flag K2_running ''infected'' n \<longleftrightarrow> n = 0"
  "flag K2_running ''next_infected'' n \<longleftrightarrow> False"
  by (auto simp: flag_def K2_running_def K2_def)

lemma adj_K2_running: "adj K2_running 0 = [1]" "adj K2_running 1 = [0]"
  by (simp_all add: K2_running_def K2_def)

lemma spec_visit_K2_running:
  "spec_visit (Fin 1) (Fin (1 / 2)) (adj K2_running) [0, 1]
     (flag K2_running ''infected'', flag K2_running ''next_infected'', rng_zero)
   = ((flag K2_running ''infected'')(0 := False),
      (flag K2_running ''next_infected'')(1 := True), rng_zero)"
  by (simp add: flag_K2_running random_sample_rng_zero adj_K2_running)

text \<open>
  C8. On a working graph whose nodes carry both attributes, the loop over the nodes
  (lines 79 to 94) never raises and does, on the two flags the attributes stand for,
  exactly what the specification says of a pass, in whatever order the nodes are given:
  for each visited node whose \<open>infected\<close> flag is set, one draw per neighbour marks the
  neighbour's \<open>nextInfected\<close> when it is below \<open>beta\<close>, then one more draw either clears
  the node's own \<open>infected\<close> flag at once, when it is below \<open>mu\<close>, or marks the node's
  own \<open>nextInfected\<close>. The flags compared are those the loop leaves behind, \<open>infected\<close>
  included, so the cure is part of the statement; and a \<open>nextInfected\<close> flag that is set
  stays set. The whole pass (lines 78 to 99) is this loop over a random permutation of
  the nodes, after which \<open>infected\<close> is overwritten by \<open>nextInfected\<close> and
  \<open>nextInfected\<close> is reset. A trial with probability \<open>p\<close> is a draw from \<open>[0, 1)\<close> that is
  below \<open>p\<close>.
\<close>

theorem pass_refines_specification:
  assumes "wf_graph H" and "ready H"
  shows "(\<forall>order. set order \<subseteq> set (nodes H) \<longrightarrow>
            (\<exists>H1 g1. visit_nodes beta mu order (H, g) = Inr (H1, g1)
               \<and> spec_visit beta mu (adj H) order
                     (flag H ''infected'', flag H ''next_infected'', g)
                   = (flag H1 ''infected'', flag H1 ''next_infected'', g1)
               \<and> (\<forall>n. flag H ''next_infected'' n \<longrightarrow> flag H1 ''next_infected'' n)))
         \<and> (\<exists>H1 H' g'.
               visit_nodes beta mu (fst (permutation (nodes H) g))
                 (H, snd (permutation (nodes H) g)) = Inr (H1, g')
               \<and> spec_visit beta mu (adj H) (fst (permutation (nodes H) g))
                     (flag H ''infected'', flag H ''next_infected'',
                      snd (permutation (nodes H) g))
                   = (flag H1 ''infected'', flag H1 ''next_infected'', g')
               \<and> sis_pass beta mu (H, g) = Inr (H', g')
               \<and> flag H' ''infected'' = flag H1 ''next_infected''
               \<and> flag H' ''next_infected'' = (\<lambda>n. False)
               \<and> spec_pass beta mu (nodes H) (adj H)
                     (flag H ''infected'', flag H ''next_infected'', g)
                   = (flag H' ''infected'', flag H' ''next_infected'', g'))
         \<and> (0 \<le> fst (random_sample g) \<and> fst (random_sample g) < 1
              \<and> (\<forall>p. lt (fst (random_sample g)) (Fin p) \<longleftrightarrow> fst (random_sample g) < p))"
proof (intro conjI allI impI)
  fix order assume "set order \<subseteq> set (nodes H)"
  with assms show "\<exists>H1 g1. visit_nodes beta mu order (H, g) = Inr (H1, g1)
               \<and> spec_visit beta mu (adj H) order
                     (flag H ''infected'', flag H ''next_infected'', g)
                   = (flag H1 ''infected'', flag H1 ''next_infected'', g1)
               \<and> (\<forall>n. flag H ''next_infected'' n \<longrightarrow> flag H1 ''next_infected'' n)"
    by (rule visit_nodes_total_refines)
next
  from assms show "\<exists>H1 H' g'.
               visit_nodes beta mu (fst (permutation (nodes H) g))
                 (H, snd (permutation (nodes H) g)) = Inr (H1, g')
               \<and> spec_visit beta mu (adj H) (fst (permutation (nodes H) g))
                     (flag H ''infected'', flag H ''next_infected'',
                      snd (permutation (nodes H) g))
                   = (flag H1 ''infected'', flag H1 ''next_infected'', g')
               \<and> sis_pass beta mu (H, g) = Inr (H', g')
               \<and> flag H' ''infected'' = flag H1 ''next_infected''
               \<and> flag H' ''next_infected'' = (\<lambda>n. False)
               \<and> spec_pass beta mu (nodes H) (adj H)
                     (flag H ''infected'', flag H ''next_infected'', g)
                   = (flag H' ''infected'', flag H' ''next_infected'', g')"
    by (rule sis_pass_stages)
next
  show "0 \<le> fst (random_sample g)" using bernoulli_trial [of g] by blast
  show "fst (random_sample g) < 1" using bernoulli_trial [of g] by blast
  fix p
  show "lt (fst (random_sample g)) (Fin p) \<longleftrightarrow> fst (random_sample g) < p" by simp
qed

theorem pass_refines_specification_witness:
  "wf_graph K2_running \<and> ready K2_running \<and> set [0, 1] \<subseteq> set (nodes K2_running)
   \<and> (\<exists>H1 g1. visit_nodes (Fin 1) (Fin (1 / 2)) [0, 1] (K2_running, rng_zero) = Inr (H1, g1)
          \<and> \<not> flag H1 ''infected'' 0 \<and> \<not> flag H1 ''infected'' 1
          \<and> flag H1 ''next_infected'' 1 \<and> \<not> flag H1 ''next_infected'' 0)"
proof -
  have sub: "set [0, 1] \<subseteq> set (nodes K2_running)"
    by (simp add: K2_running_def K2_def)
  from pass_refines_specification [OF wf_graph_K2_running ready_K2_running,
      of "Fin 1" "Fin (1 / 2)" rng_zero] sub
  obtain H1 g1 where
    v: "visit_nodes (Fin 1) (Fin (1 / 2)) [0, 1] (K2_running, rng_zero) = Inr (H1, g1)" and
    sv: "spec_visit (Fin 1) (Fin (1 / 2)) (adj K2_running) [0, 1]
           (flag K2_running ''infected'', flag K2_running ''next_infected'', rng_zero)
         = (flag H1 ''infected'', flag H1 ''next_infected'', g1)"
    by blast
  from sv have c: "flag H1 ''infected'' = (flag K2_running ''infected'')(0 := False)"
    and n: "flag H1 ''next_infected'' = (flag K2_running ''next_infected'')(1 := True)"
    unfolding spec_visit_K2_running by simp_all
  have f: "\<not> flag H1 ''infected'' 0 \<and> \<not> flag H1 ''infected'' 1
          \<and> flag H1 ''next_infected'' 1 \<and> \<not> flag H1 ''next_infected'' 0"
    unfolding c n by (simp add: flag_K2_running)
  with v have "visit_nodes (Fin 1) (Fin (1 / 2)) [0, 1] (K2_running, rng_zero) = Inr (H1, g1)
          \<and> \<not> flag H1 ''infected'' 0 \<and> \<not> flag H1 ''infected'' 1
          \<and> flag H1 ''next_infected'' 1 \<and> \<not> flag H1 ''next_infected'' 0"
    by (rule conjI)
  then have "\<exists>H1 g1. visit_nodes (Fin 1) (Fin (1 / 2)) [0, 1] (K2_running, rng_zero) = Inr (H1, g1)
          \<and> \<not> flag H1 ''infected'' 0 \<and> \<not> flag H1 ''infected'' 1
          \<and> flag H1 ''next_infected'' 1 \<and> \<not> flag H1 ''next_infected'' 0"
    by (intro exI)
  with wf_graph_K2_running ready_K2_running sub show ?thesis by (intro conjI)
qed

subsection \<open>A run with both rates given as zero\<close>

lemma next_word_rng_half: "next_word rng_half = (2 ^ 52, rng_half)"
  by (simp add: next_word_def rng_half_def)

lemma random_sample_rng_half: "random_sample rng_half = (1 / 2, rng_half)"
  by (simp add: random_sample_def next_word_rng_half)

lemma random_interval_rng_half: "random_interval (Suc 0) rng_half = (0, rng_half)"
  by (simp add: random_interval_def next_word_rng_half numeral_2_eq_2 [symmetric])

lemma permutation_pair_rng_half: "permutation [a, b] rng_half = ([b, a], rng_half)"
  by (simp add: permutation_def random_interval_rng_half)

lemma replicate_two: "replicate 2 x = [x, x]"
  by (simp add: numeral_2_eq_2)

text \<open>
  C2 on the code. The two-node graph with one edge, \<open>L = 2\<close>, one seed, \<open>beta = 0.0\<close>
  and \<open>mu = 0.0\<close>, every raw draw being \<open>2^52\<close> (so every \<open>random()\<close> is 0.5): the zero
  rates are replaced by \<open>beta = 1\<close> and \<open>mu = 1/2\<close>, the seed infects its neighbour and is
  not cured, and column 1 holds two infected nodes where the claim promises one.
\<close>

theorem zero_rates_run_spreads:
  "fst (simulate rng_half W2 0 2 1 (Some (Fin 0)) (Some (Fin 0)))
     = Inr \<lparr>nrows = 2, ncols = 2, cols = [0, 1] # [1, 1] # []\<rparr>"
  by (simp add: simulate_def sis_init_def np_zeros_def number_of_nodes_def K2_def W2_def
        default_beta_def default_mu_def np_mean_def degree_def np_repeat_def
        permutation_pair_rng_half set_col_def col_sum_def enumerate_eq_zip Let_def
        set_node_attributes_dict_def set_node_attributes_const_def dict_step_def
        get_node_attributes_def List.map_filter_def get_node_attr_def set_node_attr_def
        sis_loop.simps sis_step_def sis_pass_def random_sample_rng_half pad_def replicate_two)

end
